theory Spec2Isabelle
  imports Main "HOL-Library.Multiset"
begin

section \<open>The file store\<close>

text \<open>
  The store is one flat directory. A file name is a \<open>string\<close>; its characters stand for
  the code units that \<open>String.length\<close> counts. A manifest is declared in the source as
  \<open>interface FileWithRefs { readonly refs?: { readonly [key: number]: string } }\<close>:
  an optional object whose own properties, in enumeration order, are kept as a list of
  key and value. The text of a file is represented by what \<open>JSON.parse\<close> makes of it:
  either it throws a \<open>SyntaxError\<close> (with a message that depends on the text alone), or it
  returns a value, taken to be of the declared interface. A text whose value is not of the
  interface (\<open>null\<close>, for one, on which the access to \<open>refs\<close> throws a \<open>TypeError\<close>) is
  not represented: every statement below is about stores whose manifests, where they
  parse, parse to values of the interface.
\<close>

record FileWithRefs =
  refs :: "(nat \<times> string) list option"

datatype file_text = Malformed string | Json FileWithRefs

type_synonym disk = "(string \<times> file_text) list"

text \<open>
  What the call can throw: the \<open>Error\<close> that \<open>getMissingFilesRecursive\<close> creates when the
  level exceeds 10, the \<open>SyntaxError\<close> of \<open>JSON.parse\<close> with its message, and the error of
  a failed \<open>fs\<close> call, which carries the call and the path.
\<close>

datatype fs_call = ReadFile | RenameCall | UnlinkCall

datatype error =
    TooDeepError
  | SyntaxError string
  | IOError fs_call string

text \<open>
  The directory is a list of names with the text stored under each, in the order in which
  \<open>readdir\<close> lists them. \<open>path.join(filesPath, name)\<close> addresses the entry \<open>name\<close> of the
  directory when \<open>name\<close> is a file name. For the empty name and for \<open>.\<close> it is the
  directory itself and for \<open>..\<close> the directory above, so that these three names denote no
  file of the store. A name with a path separator (\<open>/\<close>, paths being POSIX paths) is
  resolved by \<open>path.join\<close> to some other path: \<open>./x\<close> to the entry \<open>x\<close>, \<open>sub/x\<close> and
  \<open>../x\<close> to files that are no entries of the directory. \<open>lookup\<close> does not follow that,
  so what is stated about \<open>fs\<close> calls on names that need not be in the directory listing
  is stated for names with \<open>no_separator\<close>. The names of the listing have none.
  \<open>fs.rename\<close> fails when the old name is no file and replaces the file of the new name
  if there is one; \<open>fs.unlink\<close> fails when the name is no file.
\<close>

definition joins_to_directory :: "string \<Rightarrow> bool" where
  "joins_to_directory name = (name = [] \<or> name = ''.'' \<or> name = ''..'')"

definition no_separator :: "string \<Rightarrow> bool" where
  "no_separator name = (CHR ''/'' \<notin> set name)"

definition lookup :: "disk \<Rightarrow> string \<Rightarrow> file_text option" where
  "lookup d name = (if joins_to_directory name then None else map_of d name)"

definition readDirAsync :: "disk \<Rightarrow> string list" where
  "readDirAsync d = filter (\<lambda>name. \<not> joins_to_directory name) (map fst d)"

definition readFileAsync :: "disk \<Rightarrow> string \<Rightarrow> error + file_text" where
  "readFileAsync d name =
     (case lookup d name of None \<Rightarrow> Inl (IOError ReadFile name) | Some t \<Rightarrow> Inr t)"

definition renameAsync :: "string \<Rightarrow> string \<Rightarrow> disk \<Rightarrow> error + disk" where
  "renameAsync oldName newName d =
     (case lookup d oldName of
        None \<Rightarrow> Inl (IOError RenameCall oldName)
      | Some t \<Rightarrow>
          if joins_to_directory newName then Inl (IOError RenameCall oldName)
          else if oldName = newName then Inr d
          else Inr ((newName, t) # filter (\<lambda>e. fst e \<noteq> oldName \<and> fst e \<noteq> newName) d))"

definition unlinkAsync :: "string \<Rightarrow> disk \<Rightarrow> error + disk" where
  "unlinkAsync name d =
     (case lookup d name of
        None \<Rightarrow> Inl (IOError UnlinkCall name)
      | Some t \<Rightarrow> Inr (filter (\<lambda>e. fst e \<noteq> name) d))"

section \<open>Insertion-ordered sets\<close>

text \<open>
  A JavaScript \<open>Set\<close> iterates in insertion order; it is a list without repetition.
\<close>

type_synonym 'a Set = "'a list"

definition Set_has :: "'a Set \<Rightarrow> 'a \<Rightarrow> bool" where
  "Set_has s x = (x \<in> set s)"

definition Set_add :: "'a Set \<Rightarrow> 'a \<Rightarrow> 'a Set" where
  "Set_add s x = (if x \<in> set s then s else s @ [x])"

definition Set_delete :: "'a Set \<Rightarrow> 'a \<Rightarrow> 'a Set" where
  "Set_delete s x = removeAll x s"

definition new_Set :: "'a list \<Rightarrow> 'a Set" where
  "new_Set xs = foldl Set_add [] xs"

definition difference :: "'a Set \<Rightarrow> 'a Set \<Rightarrow> 'a Set" where
  "difference setA setB = foldl Set_delete (new_Set setA) setB"

section \<open>Strings and arrays\<close>

definition endsWith :: "string \<Rightarrow> string \<Rightarrow> bool" where
  "endsWith s suf = (length suf \<le> length s \<and> drop (length s - length suf) s = suf)"

text \<open>\<open>String.prototype.substr(start, length)\<close> with its clamping of both arguments.\<close>

definition substr :: "string \<Rightarrow> int \<Rightarrow> int \<Rightarrow> string" where
  "substr s start len =
     (let sz = int (length s);
          intStart = (if start < 0 then max (sz + start) 0 else min start sz);
          resultLength = min (max len 0) (sz - intStart)
      in if resultLength \<le> 0 then [] else take (nat resultLength) (drop (nat intStart) s))"

definition slice :: "'a list \<Rightarrow> nat \<Rightarrow> nat \<Rightarrow> 'a list" where
  "slice arr i j = take (j - i) (drop i arr)"

text \<open>
  The loop of \<open>chunkArrayInGroups\<close>. With a \<open>size\<close> of 0 the source loop never ends; its
  only caller passes 50, and the guard \<open>0 < sz\<close> stands for that.
\<close>

function chunk_loop :: "'a list \<Rightarrow> nat \<Rightarrow> nat \<Rightarrow> 'a list list \<Rightarrow> 'a list list" where
  "chunk_loop arr sz i myArray =
     (if i < length arr \<and> 0 < sz
      then chunk_loop arr sz (i + sz) (myArray @ [slice arr i (i + sz)])
      else myArray)"
  by pat_completeness auto
termination
  by (relation "measure (\<lambda>(arr, sz, i, myArray). length arr - i)") auto

definition chunkArrayInGroups :: "'a list \<Rightarrow> nat \<Rightarrow> 'a list list" where
  "chunkArrayInGroups arr sz = chunk_loop arr sz 0 []"

section \<open>Resolution of the reference graph\<close>

record MissingFilesResult =
  missingFiles :: "string list"
  referencedFiles :: "string list"

definition Object_values :: "(nat \<times> string) list \<Rightarrow> string list" where
  "Object_values obj = map snd obj"

definition readFileWithRefs :: "disk \<Rightarrow> string \<Rightarrow> error + FileWithRefs" where
  "readFileWithRefs d fileName =
     (case readFileAsync d fileName of
        Inl e \<Rightarrow> Inl e
      | Inr (Malformed msg) \<Rightarrow> Inl (SyntaxError msg)
      | Inr (Json content) \<Rightarrow> Inr content)"

text \<open>
  \<open>Promise.all\<close> gives every value in array order, or rejects with one rejection of its
  promises: the one that comes first in time. \<open>Promise_all\<close> reports the rejection that
  is first in array order; \<open>Promise_all_in\<close> below reports any one of them.
\<close>

fun Promise_all :: "(error + 'a) list \<Rightarrow> error + 'a list" where
  "Promise_all [] = Inr []"
| "Promise_all (Inl e # ps) = Inl e"
| "Promise_all (Inr v # ps) = (case Promise_all ps of Inl e \<Rightarrow> Inl e | Inr vs \<Rightarrow> Inr (v # vs))"

text \<open>
  The first loop of \<open>getMissingFilesRecursive\<close>: one step for one file name. The
  parameter \<open>filePath\<close> of the source is the directory; here it is the \<open>disk\<close>.
\<close>

definition classify ::
  "string Set \<Rightarrow> string Set \<times> string Set \<Rightarrow> string \<Rightarrow> string Set \<times> string Set" where
  "classify existingFiles acc fileName =
     (case acc of (fileNamesWithRefs, fileNamesThatAreMissing) \<Rightarrow>
        if Set_has existingFiles fileName
        then (if endsWith fileName ''.json''
              then (Set_add fileNamesWithRefs fileName, fileNamesThatAreMissing)
              else (fileNamesWithRefs, fileNamesThatAreMissing))
        else (fileNamesWithRefs, Set_add fileNamesThatAreMissing fileName))"

definition referencedFileNames :: "FileWithRefs \<Rightarrow> string list" where
  "referencedFileNames content = (case refs content of None \<Rightarrow> [] | Some r \<Rightarrow> Object_values r)"

text \<open>
  The second loop: the chunks are read one after another; \<open>stats\<close> is the counter
  \<open>stats.readFiles\<close>.
\<close>

fun read_chunks ::
  "disk \<Rightarrow> string list list \<Rightarrow> string Set \<times> nat \<Rightarrow> error + (string Set \<times> nat)" where
  "read_chunks d [] acc = Inr acc"
| "read_chunks d (chunk # chunks) (allReferencedFileNames, stats) =
     (case Promise_all (map (readFileWithRefs d) chunk) of
        Inl e \<Rightarrow> Inl e
      | Inr chunkContent \<Rightarrow>
          read_chunks d chunks
            (foldl (\<lambda>s content. foldl Set_add s (referencedFileNames content))
               allReferencedFileNames chunkContent,
             stats + length chunk))"

function getMissingFilesRecursive ::
  "disk \<Rightarrow> string Set \<Rightarrow> string list \<Rightarrow> nat \<Rightarrow> nat \<Rightarrow> error + (MissingFilesResult \<times> nat)" where
  "getMissingFilesRecursive filePath existingFiles fileNames level stats =
     (if 10 < level then Inl TooDeepError
      else
        case foldl (classify existingFiles) ([], []) fileNames of
          (fileNamesWithRefs, fileNamesThatAreMissing) \<Rightarrow>
            (case read_chunks filePath (chunkArrayInGroups fileNamesWithRefs 50) ([], stats) of
               Inl e \<Rightarrow> Inl e
             | Inr (allReferencedFileNames, stats1) \<Rightarrow>
                 (case (if allReferencedFileNames \<noteq> []
                        then getMissingFilesRecursive filePath existingFiles
                               allReferencedFileNames (level + 1) stats1
                        else Inr (\<lparr>missingFiles = [], referencedFiles = []\<rparr>, stats1)) of
                    Inl e \<Rightarrow> Inl e
                  | Inr (missingChildFiles, stats2) \<Rightarrow>
                      Inr (\<lparr>missingFiles =
                              missingFiles missingChildFiles @ fileNamesThatAreMissing,
                            referencedFiles =
                              referencedFiles missingChildFiles @ fileNames\<rparr>,
                           stats2))))"
  by pat_completeness auto
termination
  by (relation "measure (\<lambda>(filePath, existingFiles, fileNames, level, stats). 11 - level)") auto

text \<open>
  The reads of a chunk run concurrently. They change nothing in the store, so that the
  order in which they end decides one thing only: which rejection \<open>Promise.all\<close> reports
  when several reads of the chunk fail. The parameter \<open>rejection\<close> picks it from the
  rejections of the chunk, which \<open>rejections\<close> lists in array order. The functions
  \<open>read_chunks_in\<close> and \<open>getMissingFilesRecursive_in\<close> are the second loop and the
  traversal with that parameter; \<open>read_chunks\<close> and \<open>getMissingFilesRecursive\<close> above are
  the case in which the rejection that is first in array order is reported.
\<close>

fun rejections :: "(error + 'a) list \<Rightarrow> error list" where
  "rejections [] = []"
| "rejections (Inl e # ps) = e # rejections ps"
| "rejections (Inr v # ps) = rejections ps"

definition rejection_order :: "(error list \<Rightarrow> error) \<Rightarrow> bool" where
  "rejection_order rejection = (\<forall>errors. errors \<noteq> [] \<longrightarrow> rejection errors \<in> set errors)"

definition Promise_all_in :: "(error list \<Rightarrow> error) \<Rightarrow> (error + 'a) list \<Rightarrow> error + 'a list" where
  "Promise_all_in rejection ps =
     (case Promise_all ps of
        Inl e \<Rightarrow> Inl (rejection (rejections ps))
      | Inr vs \<Rightarrow> Inr vs)"

fun read_chunks_in ::
  "(error list \<Rightarrow> error) \<Rightarrow> disk \<Rightarrow> string list list \<Rightarrow> string Set \<times> nat
     \<Rightarrow> error + (string Set \<times> nat)" where
  "read_chunks_in rejection d [] acc = Inr acc"
| "read_chunks_in rejection d (chunk # chunks) (allReferencedFileNames, stats) =
     (case Promise_all_in rejection (map (readFileWithRefs d) chunk) of
        Inl e \<Rightarrow> Inl e
      | Inr chunkContent \<Rightarrow>
          read_chunks_in rejection d chunks
            (foldl (\<lambda>s content. foldl Set_add s (referencedFileNames content))
               allReferencedFileNames chunkContent,
             stats + length chunk))"

function getMissingFilesRecursive_in ::
  "(error list \<Rightarrow> error) \<Rightarrow> disk \<Rightarrow> string Set \<Rightarrow> string list \<Rightarrow> nat \<Rightarrow> nat
     \<Rightarrow> error + (MissingFilesResult \<times> nat)" where
  "getMissingFilesRecursive_in rejection filePath existingFiles fileNames level stats =
     (if 10 < level then Inl TooDeepError
      else
        case foldl (classify existingFiles) ([], []) fileNames of
          (fileNamesWithRefs, fileNamesThatAreMissing) \<Rightarrow>
            (case read_chunks_in rejection filePath
                    (chunkArrayInGroups fileNamesWithRefs 50) ([], stats) of
               Inl e \<Rightarrow> Inl e
             | Inr (allReferencedFileNames, stats1) \<Rightarrow>
                 (case (if allReferencedFileNames \<noteq> []
                        then getMissingFilesRecursive_in rejection filePath existingFiles
                               allReferencedFileNames (level + 1) stats1
                        else Inr (\<lparr>missingFiles = [], referencedFiles = []\<rparr>, stats1)) of
                    Inl e \<Rightarrow> Inl e
                  | Inr (missingChildFiles, stats2) \<Rightarrow>
                      Inr (\<lparr>missingFiles =
                              missingFiles missingChildFiles @ fileNamesThatAreMissing,
                            referencedFiles =
                              referencedFiles missingChildFiles @ fileNames\<rparr>,
                           stats2))))"
  by pat_completeness auto
termination
  by (relation "measure (\<lambda>(rejection, filePath, existingFiles, fileNames, level, stats).
        11 - level)") auto

section \<open>Commit and rollback\<close>

datatype fs_op = Rename string string | Unlink string

fun issue :: "fs_op \<Rightarrow> disk \<Rightarrow> error + disk" where
  "issue (Rename oldName newName) d = renameAsync oldName newName d"
| "issue (Unlink name) d = unlinkAsync name d"

text \<open>
  \<open>run_batch\<close> lets the operations of a list take effect one after another; each one
  runs to its end whether or not another one fails, and the failure reported is the first
  one.
\<close>

fun run_batch :: "fs_op list \<Rightarrow> disk \<Rightarrow> disk \<times> error option" where
  "run_batch [] d = (d, None)"
| "run_batch (operation # ops) d =
     (case issue operation d of
        Inl e \<Rightarrow> (fst (run_batch ops d), Some e)
      | Inr d1 \<Rightarrow> run_batch ops d1)"

definition getExistingFiles :: "disk \<Rightarrow> string Set" where
  "getExistingFiles d = new_Set (readDirAsync d)"

definition permanentName :: "string \<Rightarrow> string \<Rightarrow> string" where
  "permanentName file tempFileSuffix =
     substr file 0 (int (length file) - int (length tempFileSuffix))"

text \<open>
  The callback of \<open>fileNames.map\<close> in the commit branch: it renames in the two sets
  (\<open>referencedSet\<close> is the local \<open>referencedFiles\<close> of the source) and starts the
  rename on disk.
\<close>

definition rename_step ::
  "string \<Rightarrow> string Set \<times> string Set \<times> fs_op list \<Rightarrow> string
     \<Rightarrow> string Set \<times> string Set \<times> fs_op list" where
  "rename_step tempFileSuffix acc file =
     (case acc of (referencedSet, existingFiles, renamePromises) \<Rightarrow>
        let newName = permanentName file tempFileSuffix
        in (Set_add (Set_delete referencedSet file) newName,
            Set_add (Set_delete existingFiles file) newName,
            renamePromises @ [Rename file newName]))"

text \<open>
  What one call does: the value it returns or the error it throws, the file system
  operations it has started (in the order in which it started them), and the store it
  leaves.
\<close>

record run =
  result :: "error + string list"
  issued :: "fs_op list"
  store :: disk

text \<open>
  A batch is built by \<open>map\<close>, which starts every operation, in array order, before
  \<open>Promise.all\<close> is awaited. The operations then run concurrently: the order in which
  they take effect is not in the hands of the program, and \<open>Promise.all\<close> rejects with the
  failure that comes first in that order. The parameter \<open>completion\<close> gives, for a batch
  in the order in which it was started, the same operations in the order in which they
  take effect.
\<close>

definition completion_order :: "(fs_op list \<Rightarrow> fs_op list) \<Rightarrow> bool" where
  "completion_order completion = (\<forall>batch. mset (completion batch) = mset batch)"

definition getMissingFilesForRootFiles_in ::
  "(error list \<Rightarrow> error) \<Rightarrow> (fs_op list \<Rightarrow> fs_op list)
     \<Rightarrow> disk \<Rightarrow> string list \<Rightarrow> string \<Rightarrow> string \<Rightarrow> run" where
  "getMissingFilesForRootFiles_in rejection completion
       filesPath fileNames saveQueryParam tempFileSuffix =
     (let existingFiles = getExistingFiles filesPath in
      case getMissingFilesRecursive_in rejection filesPath existingFiles fileNames 0 0 of
        Inl e \<Rightarrow> \<lparr>result = Inl e, issued = [], store = filesPath\<rparr>
      | Inr (missingFilesResult, stats) \<Rightarrow>
          if saveQueryParam = ''ifcomplete'' \<or> saveQueryParam = ''no'' then
            if saveQueryParam = ''ifcomplete'' \<and> length (missingFiles missingFilesResult) = 0
            then
              (case foldl (rename_step tempFileSuffix)
                      (new_Set (referencedFiles missingFilesResult), existingFiles, [])
                      fileNames of
                 (referencedFiles1, existingFiles1, renamePromises) \<Rightarrow>
                   (case run_batch (completion renamePromises) filesPath of
                      (d1, Some e) \<Rightarrow>
                        \<lparr>result = Inl e, issued = renamePromises, store = d1\<rparr>
                    | (d1, None) \<Rightarrow>
                        let pruneFiles = difference existingFiles1 referencedFiles1;
                            prunePromises = map Unlink pruneFiles
                        in (case run_batch (completion prunePromises) d1 of
                              (d2, Some e) \<Rightarrow>
                                \<lparr>result = Inl e, issued = renamePromises @ prunePromises,
                                 store = d2\<rparr>
                            | (d2, None) \<Rightarrow>
                                \<lparr>result = Inr (missingFiles missingFilesResult),
                                 issued = renamePromises @ prunePromises, store = d2\<rparr>)))
            else
              (let promises = map Unlink fileNames
               in (case run_batch (completion promises) filesPath of
                     (d1, Some e) \<Rightarrow> \<lparr>result = Inl e, issued = promises, store = d1\<rparr>
                   | (d1, None) \<Rightarrow>
                       \<lparr>result = Inr (missingFiles missingFilesResult), issued = promises,
                        store = d1\<rparr>))
          else \<lparr>result = Inr (missingFiles missingFilesResult), issued = [],
                store = filesPath\<rparr>)"

text \<open>
  The call in which the rejection reported for a chunk of reads is the first one in array
  order, and the operations of every batch take effect in array order.
\<close>

definition getMissingFilesForRootFiles :: "disk \<Rightarrow> string list \<Rightarrow> string \<Rightarrow> string \<Rightarrow> run" where
  "getMissingFilesForRootFiles = getMissingFilesForRootFiles_in hd id"

text \<open>What a call returns, when it does not throw.\<close>

definition returned :: "error + 'a \<Rightarrow> 'a option" where
  "returned r = (case r of Inl e \<Rightarrow> None | Inr v \<Rightarrow> Some v)"

section \<open>The reference graph\<close>

text \<open>
  The notions in which the properties of the traversal are stated. A file \<open>m\<close> refers to
  the names in its \<open>refs\<close> when it is in the snapshot, its name ends in \<open>.json\<close>, and its
  text parses; every other name refers to nothing. A name is reachable from the roots when
  a chain of such references leads from a root to it; the roots are reachable themselves.
\<close>

definition manifest_refs :: "disk \<Rightarrow> string Set \<Rightarrow> string \<Rightarrow> string list" where
  "manifest_refs d ex m =
     (if m \<in> set ex \<and> endsWith m ''.json''
      then (case lookup d m of Some (Json content) \<Rightarrow> referencedFileNames content | _ \<Rightarrow> [])
      else [])"

definition edges :: "disk \<Rightarrow> string Set \<Rightarrow> (string \<times> string) set" where
  "edges d ex = {(m, f). f \<in> set (manifest_refs d ex m)}"

definition reachable :: "disk \<Rightarrow> string Set \<Rightarrow> string list \<Rightarrow> string set" where
  "reachable d ex roots = (edges d ex)\<^sup>* `` set roots"

definition parses :: "disk \<Rightarrow> string \<Rightarrow> bool" where
  "parses d m = (case lookup d m of Some (Json content) \<Rightarrow> True | _ \<Rightarrow> False)"

section \<open>What one level computes\<close>

text \<open>
  The two sets that the first loop of a level builds, the union of the names referenced by
  the files it reads, and the input names of the successive levels (at most \<open>n\<close> of them).
  They are shown below to be what the loops of \<open>getMissingFilesRecursive\<close> compute.
\<close>

definition level_manifests :: "string Set \<Rightarrow> string list \<Rightarrow> string Set" where
  "level_manifests ex names = new_Set (filter (\<lambda>f. f \<in> set ex \<and> endsWith f ''.json'') names)"

definition level_missing :: "string Set \<Rightarrow> string list \<Rightarrow> string Set" where
  "level_missing ex names = new_Set (filter (\<lambda>f. f \<notin> set ex) names)"

definition level_refs :: "disk \<Rightarrow> string Set \<Rightarrow> string list \<Rightarrow> error + string Set" where
  "level_refs d ex names =
     (case Promise_all (map (readFileWithRefs d) (level_manifests ex names)) of
        Inl e \<Rightarrow> Inl e
      | Inr cs \<Rightarrow> Inr (new_Set (concat (map referencedFileNames cs))))"

fun level_inputs :: "disk \<Rightarrow> string Set \<Rightarrow> string list \<Rightarrow> nat \<Rightarrow> string list list" where
  "level_inputs d ex names 0 = []"
| "level_inputs d ex names (Suc n) =
     names # (case level_refs d ex names of
                Inl e \<Rightarrow> []
              | Inr next \<Rightarrow> if next \<noteq> [] then level_inputs d ex next n else [])"

text \<open>
  The two sets after the renames of a commit have been mirrored in them, the names that
  are pruned, and the renames that are started.
\<close>

definition renamed_set :: "string \<Rightarrow> string Set \<Rightarrow> string list \<Rightarrow> string Set" where
  "renamed_set suf s roots = foldl (\<lambda>s f. Set_add (Set_delete s f) (permanentName f suf)) s roots"

definition prune_list :: "disk \<Rightarrow> MissingFilesResult \<Rightarrow> string list \<Rightarrow> string \<Rightarrow> string list" where
  "prune_list d r roots suf =
     difference (renamed_set suf (getExistingFiles d) roots)
       (renamed_set suf (new_Set (referencedFiles r)) roots)"

definition rename_list :: "string list \<Rightarrow> string \<Rightarrow> fs_op list" where
  "rename_list roots suf = map (\<lambda>f. Rename f (permanentName f suf)) roots"

section \<open>Example stores\<close>

text \<open>
  The store of the first scenario of the specification (\<open>blob1\<close> is absent), and the one
  of its second scenario, where the root is staged as \<open>root.json.tmp\<close>.
\<close>

definition scenario1 :: disk where
  "scenario1 =
     [(''root.json'', Json \<lparr>refs = Some [(0, ''a.json''), (1, ''b.json'')]\<rparr>),
      (''a.json'', Json \<lparr>refs = Some [(0, ''blob1'')]\<rparr>),
      (''b.json'', Json \<lparr>refs = None\<rparr>)]"

definition scenario2 :: disk where
  "scenario2 =
     [(''root.json.tmp'', Json \<lparr>refs = Some [(0, ''a.json''), (1, ''b.json'')]\<rparr>),
      (''a.json'', Json \<lparr>refs = Some [(0, ''blob1'')]\<rparr>),
      (''b.json'', Json \<lparr>refs = None\<rparr>),
      (''blob1'', Malformed ''binary'')]"

text \<open>
  A root staged under a name that still ends in \<open>.json\<close>, next to the files of an older
  publish; a store in which \<open>x\<close> is referenced at two depths; a store with two opaque
  files of a given text; and a store of two manifests of given texts.
\<close>

definition staged_store :: disk where
  "staged_store =
     [(''root.json.tmp.json'', Json \<lparr>refs = Some [(0, ''a.json''), (1, ''blob1'')]\<rparr>),
      (''a.json'', Json \<lparr>refs = Some [(0, ''blob1'')]\<rparr>),
      (''blob1'', Malformed ''binary''),
      (''root.json'', Json \<lparr>refs = Some [(0, ''old.json'')]\<rparr>),
      (''old.json'', Json \<lparr>refs = None\<rparr>),
      (''stale'', Malformed ''binary'')]"

definition store_shared :: disk where
  "store_shared =
     [(''root.json'', Json \<lparr>refs = Some [(0, ''a.json''), (1, ''x'')]\<rparr>),
      (''a.json'', Json \<lparr>refs = Some [(0, ''x'')]\<rparr>)]"

definition store_blob :: "string \<Rightarrow> disk" where
  "store_blob text =
     [(''root.json'', Json \<lparr>refs = Some [(0, ''blob1''), (1, ''gone'')]\<rparr>),
      (''blob1'', Malformed text),
      (''old'', Malformed text)]"

definition store_ab :: "file_text \<Rightarrow> file_text \<Rightarrow> disk" where
  "store_ab a b = [(''a.json'', a), (''b.json'', b)]"

text \<open>
  Two staged files, one of which carries the suffix \<open>.t\<close> twice, next to a file of an
  older publish; the text of the first one is a parameter.
\<close>

definition twice_staged :: "string \<Rightarrow> disk" where
  "twice_staged text =
     [(''a.t'', Malformed text), (''a.t.t'', Malformed ''two''), (''stale'', Malformed ''old'')]"

text \<open>
  A chain of \<open>n\<close> references \<open>link 0 \<rightarrow> link 1 \<rightarrow> \<dots> \<rightarrow> link n\<close>, and two manifests that
  reference each other.
\<close>

definition link :: "nat \<Rightarrow> string" where
  "link k = replicate (Suc k) CHR ''c'' @ ''.json''"

definition chain_store :: "nat \<Rightarrow> disk" where
  "chain_store n =
     map (\<lambda>k. (link k, Json \<lparr>refs = Some [(0, link (Suc k))]\<rparr>)) [0..<n]
     @ [(link n, Json \<lparr>refs = None\<rparr>)]"

definition loop_store :: disk where
  "loop_store =
     [(''root.json'', Json \<lparr>refs = Some [(0, ''loop.json'')]\<rparr>),
      (''loop.json'', Json \<lparr>refs = Some [(0, ''root.json'')]\<rparr>),
      (''other'', Malformed ''text'')]"

section \<open>Sets, chunks and promises\<close>

declare getMissingFilesRecursive.simps [simp del]
declare chunk_loop.simps [simp del]

lemma set_Set_add [simp]: "set (Set_add s x) = insert x (set s)"
  by (auto simp: Set_add_def)

lemma distinct_Set_add [simp]: "distinct (Set_add s x) = distinct s"
  by (auto simp: Set_add_def)

lemma set_Set_delete [simp]: "set (Set_delete s x) = set s - {x}"
  by (auto simp: Set_delete_def)

lemma distinct_Set_delete [simp]: "distinct s \<Longrightarrow> distinct (Set_delete s x)"
  by (simp add: Set_delete_def distinct_removeAll)

lemma set_foldl_Set_add [simp]: "set (foldl Set_add s xs) = set s \<union> set xs"
  by (induction xs arbitrary: s) (auto simp: Set_add_def)

lemma distinct_foldl_Set_add [simp]: "distinct (foldl Set_add s xs) = distinct s"
  by (induction xs arbitrary: s) (auto simp: Set_add_def)

lemma set_new_Set [simp]: "set (new_Set xs) = set xs"
  by (simp add: new_Set_def)

lemma distinct_new_Set [simp]: "distinct (new_Set xs)"
  by (simp add: new_Set_def)

lemma set_foldl_Set_delete [simp]: "set (foldl Set_delete s xs) = set s - set xs"
  by (induction xs arbitrary: s) auto

lemma distinct_foldl_Set_delete [simp]: "distinct s \<Longrightarrow> distinct (foldl Set_delete s xs)"
  by (induction xs arbitrary: s) auto

lemma set_difference [simp]: "set (difference a b) = set a - set b"
  by (simp add: difference_def)

lemma distinct_difference [simp]: "distinct (difference a b)"
  by (simp add: difference_def)

lemma permanentName_take:
  "permanentName file suf = take (length file - length suf) file"
  by (auto simp: permanentName_def substr_def Let_def min_def max_def nat_diff_distrib')

lemma concat_chunk_loop:
  "0 < sz \<Longrightarrow> concat (chunk_loop arr sz i acc) = concat acc @ drop i arr"
proof (induction arr sz i acc rule: chunk_loop.induct)
  case (1 arr sz i myArray)
  show ?case
  proof (cases "i < length arr")
    case True
    have "take sz (drop i arr) @ drop (i + sz) arr = drop i arr"
      by (metis add.commute append_take_drop_id drop_drop)
    with 1 True show ?thesis
      by (subst chunk_loop.simps) (simp add: slice_def)
  next
    case False
    then show ?thesis
      by (subst chunk_loop.simps) simp
  qed
qed

lemma concat_chunkArrayInGroups: "0 < sz \<Longrightarrow> concat (chunkArrayInGroups arr sz) = arr"
  by (simp add: chunkArrayInGroups_def concat_chunk_loop)

lemma Promise_all_append:
  "Promise_all (ps @ qs) =
     (case Promise_all ps of
        Inl e \<Rightarrow> Inl e
      | Inr vs \<Rightarrow> (case Promise_all qs of Inl e \<Rightarrow> Inl e | Inr ws \<Rightarrow> Inr (vs @ ws)))"
  by (induction ps rule: Promise_all.induct) (auto split: sum.splits)

lemma Promise_all_map_Inl:
  "Promise_all (map g xs) = Inl e \<Longrightarrow> \<exists>x \<in> set xs. g x = Inl e"
  by (induction xs) (auto split: sum.splits elim: Promise_all.elims)

lemma Promise_all_all_Inr:
  "\<forall>x \<in> set xs. \<exists>v. g x = Inr v \<Longrightarrow> \<exists>vs. Promise_all (map g xs) = Inr vs"
  by (induction xs) auto

lemma Promise_all_some_Inl:
  "x \<in> set xs \<Longrightarrow> g x = Inl e \<Longrightarrow> \<exists>e'. Promise_all (map g xs) = Inl e'"
  by (induction xs) (auto split: sum.splits, metis Promise_all.simps(2,3) sum.exhaust sum.simps(5))

section \<open>The loops of one level\<close>

text \<open>
  The first loop yields \<open>level_manifests\<close> and \<open>level_missing\<close>; the second loop reads the
  files of \<open>level_manifests\<close> in their order, whatever the chunks, and yields
  \<open>level_refs\<close>. With them the function unfolds into one equation for a level.
\<close>

lemma foldl_classify:
  "foldl (classify ex) (w, m) names =
     (foldl Set_add w (filter (\<lambda>f. f \<in> set ex \<and> endsWith f ''.json'') names),
      foldl Set_add m (filter (\<lambda>f. f \<notin> set ex) names))"
  by (induction names arbitrary: w m) (simp_all add: classify_def Set_has_def)

lemma classify_levels:
  "foldl (classify ex) ([], []) names = (level_manifests ex names, level_missing ex names)"
  by (simp add: foldl_classify level_manifests_def level_missing_def new_Set_def)

lemma foldl_foldl_Set_add:
  "foldl (\<lambda>s c. foldl Set_add s (g c)) acc cs = foldl Set_add acc (concat (map g cs))"
  by (induction cs arbitrary: acc) simp_all

lemma read_chunks_concat:
  "read_chunks d chunks (acc, st) =
     (case Promise_all (map (readFileWithRefs d) (concat chunks)) of
        Inl e \<Rightarrow> Inl e
      | Inr cs \<Rightarrow>
          Inr (foldl Set_add acc (concat (map referencedFileNames cs)),
               st + length (concat chunks)))"
proof (induction chunks arbitrary: acc st)
  case Nil
  show ?case by simp
next
  case (Cons chunk chunks)
  show ?case
    by (simp add: Cons Promise_all_append foldl_foldl_Set_add split: sum.splits)
qed

lemma read_level:
  "read_chunks d (chunkArrayInGroups (level_manifests ex names) 50) ([], st) =
     (case level_refs d ex names of
        Inl e \<Rightarrow> Inl e
      | Inr next \<Rightarrow> Inr (next, st + length (level_manifests ex names)))"
  by (simp add: read_chunks_concat concat_chunkArrayInGroups level_refs_def new_Set_def
      split: sum.splits)

lemma read_level_files:
  "read_chunks d (chunkArrayInGroups w 50) ([], st) =
     (case Promise_all (map (readFileWithRefs d) w) of
        Inl e \<Rightarrow> Inl e
      | Inr cs \<Rightarrow> Inr (new_Set (concat (map referencedFileNames cs)), st + length w))"
  by (simp add: read_chunks_concat concat_chunkArrayInGroups new_Set_def split: sum.splits)

lemma getMissingFilesRecursive_level:
  "getMissingFilesRecursive d ex names l st =
     (if 10 < l then Inl TooDeepError
      else case level_refs d ex names of
        Inl e \<Rightarrow> Inl e
      | Inr next \<Rightarrow>
          (case (if next \<noteq> []
                 then getMissingFilesRecursive d ex next (l + 1)
                        (st + length (level_manifests ex names))
                 else Inr (\<lparr>missingFiles = [], referencedFiles = []\<rparr>,
                           st + length (level_manifests ex names))) of
             Inl e \<Rightarrow> Inl e
           | Inr (child, st2) \<Rightarrow>
               Inr (\<lparr>missingFiles = missingFiles child @ level_missing ex names,
                     referencedFiles = referencedFiles child @ names\<rparr>, st2)))"
  by (subst getMissingFilesRecursive.simps)
     (simp add: classify_levels read_level split: sum.splits)

lemma set_level_manifests:
  "set (level_manifests ex names) = {f \<in> set names. f \<in> set ex \<and> endsWith f ''.json''}"
  by (auto simp: level_manifests_def)

lemma set_level_missing: "set (level_missing ex names) = {f \<in> set names. f \<notin> set ex}"
  by (auto simp: level_missing_def)

lemma lookup_cases:
  obtains "x = None" | msg where "x = Some (Malformed msg)" | c where "x = Some (Json c)"
  by (cases x) (auto intro: file_text.exhaust)

lemma readFileWithRefs_Inr:
  "readFileWithRefs d m = Inr c \<longleftrightarrow> lookup d m = Some (Json c)"
  by (auto simp: readFileWithRefs_def readFileAsync_def split: option.splits file_text.splits)

lemma readFileWithRefs_Inl:
  "readFileWithRefs d m = Inl e \<longleftrightarrow>
     (lookup d m = None \<and> e = IOError ReadFile m)
     \<or> (\<exists>msg. lookup d m = Some (Malformed msg) \<and> e = SyntaxError msg)"
  by (auto simp: readFileWithRefs_def readFileAsync_def split: option.splits file_text.splits)

lemma parses_read: "parses d m \<Longrightarrow> \<exists>c. readFileWithRefs d m = Inr c"
  by (cases "lookup d m" rule: lookup_cases) (simp_all add: parses_def readFileWithRefs_Inr)

lemma readFileWithRefs_cong:
  "lookup d m = lookup d' m \<Longrightarrow> readFileWithRefs d m = readFileWithRefs d' m"
  by (simp add: readFileWithRefs_def readFileAsync_def)

lemma refs_of_read:
  "Promise_all (map (readFileWithRefs d) ms) = Inr cs \<Longrightarrow>
   \<forall>m \<in> set ms. m \<in> set ex \<and> endsWith m ''.json'' \<Longrightarrow>
   set (concat (map referencedFileNames cs)) = (\<Union>m \<in> set ms. set (manifest_refs d ex m))"
proof (induction ms arbitrary: cs)
  case Nil
  then show ?case by simp
next
  case (Cons m ms)
  from Cons.prems(1) obtain c cs' where c: "readFileWithRefs d m = Inr c"
    and cs': "Promise_all (map (readFileWithRefs d) ms) = Inr cs'" and cs: "cs = c # cs'"
    by (auto split: sum.splits elim: Promise_all.elims)
  from c have "manifest_refs d ex m = referencedFileNames c"
    using Cons.prems(2) by (simp add: manifest_refs_def readFileWithRefs_Inr)
  with Cons.IH [OF cs'] Cons.prems(2) cs show ?case by simp
qed

lemma manifest_refs_empty:
  "\<not> (m \<in> set ex \<and> endsWith m ''.json'') \<Longrightarrow> manifest_refs d ex m = []"
  by (auto simp: manifest_refs_def)

lemma level_refs_Inr:
  assumes "level_refs d ex names = Inr next"
  shows "set next = edges d ex `` set names"
proof -
  from assms obtain cs where
    cs: "Promise_all (map (readFileWithRefs d) (level_manifests ex names)) = Inr cs"
    and nx: "next = new_Set (concat (map referencedFileNames cs))"
    by (auto simp: level_refs_def split: sum.splits)
  have "set next = (\<Union>m \<in> set (level_manifests ex names). set (manifest_refs d ex m))"
    using refs_of_read [OF cs, of ex] nx by (simp add: set_level_manifests)
  also have "\<dots> = (\<Union>m \<in> set names. set (manifest_refs d ex m))"
    using manifest_refs_empty [of _ ex d] by (fastforce simp: set_level_manifests)
  also have "\<dots> = edges d ex `` set names"
    by (auto simp: edges_def)
  finally show ?thesis .
qed

lemma level_refs_Inl:
  assumes "level_refs d ex names = Inl e"
  shows "\<exists>m \<in> set names. m \<in> set ex \<and> endsWith m ''.json'' \<and> readFileWithRefs d m = Inl e"
proof -
  from assms have "Promise_all (map (readFileWithRefs d) (level_manifests ex names)) = Inl e"
    by (auto simp: level_refs_def split: sum.splits)
  from Promise_all_map_Inl [OF this] show ?thesis
    by (auto simp: set_level_manifests)
qed

lemma level_refs_total:
  assumes "\<forall>m \<in> set names. m \<in> set ex \<and> endsWith m ''.json'' \<longrightarrow> parses d m"
  shows "\<exists>next. level_refs d ex names = Inr next"
proof -
  have "\<exists>c. readFileWithRefs d m = Inr c" if "parses d m" for m
    using that by (cases "lookup d m" rule: lookup_cases) (simp_all add: parses_def readFileWithRefs_Inr)
  with assms have "\<forall>m \<in> set (level_manifests ex names). \<exists>c. readFileWithRefs d m = Inr c"
    by (simp add: set_level_manifests)
  from Promise_all_all_Inr [OF this] show ?thesis
    by (auto simp: level_refs_def)
qed

lemma level_refs_fails:
  assumes "m \<in> set names" "m \<in> set ex" "endsWith m ''.json''" "\<not> parses d m"
  shows "\<exists>e. level_refs d ex names = Inl e"
proof -
  from assms(4) obtain e where "readFileWithRefs d m = Inl e"
    by (cases "readFileWithRefs d m") (auto simp: parses_def readFileWithRefs_Inr)
  moreover have "m \<in> set (level_manifests ex names)"
    using assms by (simp add: set_level_manifests)
  ultimately show ?thesis
    using Promise_all_some_Inl [of m "level_manifests ex names" "readFileWithRefs d" e]
    by (auto simp: level_refs_def)
qed

lemma level_refs_cong:
  assumes "\<forall>f \<in> set ex. endsWith f ''.json'' \<longrightarrow> lookup d f = lookup d' f"
  shows "level_refs d ex names = level_refs d' ex names"
proof -
  have "readFileWithRefs d x = readFileWithRefs d' x"
    if "x \<in> set (level_manifests ex names)" for x
    using that assms by (auto simp: set_level_manifests intro: readFileWithRefs_cong)
  then have "map (readFileWithRefs d) (level_manifests ex names)
      = map (readFileWithRefs d') (level_manifests ex names)"
    by simp
  then show ?thesis unfolding level_refs_def by (rule arg_cong)
qed

lemma length_level_inputs: "length (level_inputs d ex names n) \<le> n"
  by (induction n arbitrary: names) (auto split: sum.splits)

text \<open>
  The traversal with a chosen rejection: it is \<open>getMissingFilesRecursive\<close> when the
  rejection chosen is the first one, and whatever the choice, it returns when
  \<open>getMissingFilesRecursive\<close> does, and the same value.
\<close>

declare getMissingFilesRecursive_in.simps [simp del]

lemma hd_rejections: "Promise_all ps = Inl e \<Longrightarrow> hd (rejections ps) = e"
  by (induction ps rule: Promise_all.induct) (auto split: sum.splits)

lemma Promise_all_in_first: "Promise_all_in hd ps = Promise_all ps"
  by (simp add: Promise_all_in_def hd_rejections split: sum.splits)

lemma read_chunks_in_first:
  "read_chunks_in hd d chunks acc = read_chunks d chunks acc"
proof (induction chunks arbitrary: acc)
  case Nil
  show ?case by simp
next
  case (Cons chunk chunks)
  obtain a st where "acc = (a, st)" by (cases acc)
  with Cons show ?case
    by (simp add: Promise_all_in_first split: sum.splits)
qed

lemma resolve_in_first:
  "getMissingFilesRecursive_in hd d ex names l st
     = getMissingFilesRecursive d ex names l st"
proof (induction "11 - l" arbitrary: names l st)
  case 0
  then show ?case
    by (subst getMissingFilesRecursive_in.simps, subst getMissingFilesRecursive.simps) simp
next
  case (Suc n)
  from Suc.hyps(2) have "n = 11 - Suc l" by simp
  from Suc.hyps(1) [OF this]
  have "getMissingFilesRecursive_in hd d ex ns (Suc l) s
      = getMissingFilesRecursive d ex ns (Suc l) s" for ns s .
  then show ?case
    by (subst getMissingFilesRecursive_in.simps, subst getMissingFilesRecursive.simps)
       (simp add: read_chunks_in_first split: sum.splits prod.splits)
qed

lemma returned_Inr [simp]: "returned (Inr v) = Some v"
  by (simp add: returned_def)

lemma returned_Inl [simp]: "returned (Inl e) = None"
  by (simp add: returned_def)

lemma returned_eq_Some: "returned r = Some v \<longleftrightarrow> r = Inr v"
  by (cases r) simp_all

lemma returned_eq_None: "returned r = None \<longleftrightarrow> (\<exists>e. r = Inl e)"
  by (cases r) simp_all

lemma set_rejections: "set (rejections ps) = {e. Inl e \<in> set ps}"
  by (induction ps rule: rejections.induct) auto

lemma rejections_Nil: "Promise_all ps = Inl e \<Longrightarrow> rejections ps \<noteq> []"
  by (induction ps rule: Promise_all.induct) (auto split: sum.splits)

lemma Promise_all_in_rejects:
  "rejection_order rejection \<Longrightarrow> Promise_all_in rejection ps = Inl e \<Longrightarrow> Inl e \<in> set ps"
  using set_rejections [of ps]
  by (auto simp: Promise_all_in_def rejection_order_def split: sum.splits dest: rejections_Nil)

lemma returned_read_chunks_in:
  "returned (read_chunks_in rejection d chunks acc) = returned (read_chunks d chunks acc)"
proof (induction chunks arbitrary: acc)
  case Nil
  show ?case by simp
next
  case (Cons chunk chunks)
  obtain a st where acc: "acc = (a, st)" by (cases acc)
  show ?case
  proof (cases "Promise_all (map (readFileWithRefs d) chunk)")
    case (Inl e)
    then show ?thesis by (simp add: acc Promise_all_in_def)
  next
    case (Inr cs)
    with Cons show ?thesis by (simp add: acc Promise_all_in_def)
  qed
qed

lemma returned_resolve_in:
  "returned (getMissingFilesRecursive_in rejection d ex names l st)
     = returned (getMissingFilesRecursive d ex names l st)"
proof (induction "11 - l" arbitrary: names l st)
  case 0
  then show ?case
    by (subst getMissingFilesRecursive_in.simps, subst getMissingFilesRecursive.simps) simp
next
  case (Suc n)
  from Suc.hyps(2) have "n = 11 - Suc l" by simp
  from Suc.hyps(1) [OF this]
  have IH: "returned (getMissingFilesRecursive_in rejection d ex ns (Suc l) s)
      = returned (getMissingFilesRecursive d ex ns (Suc l) s)" for ns s .
  obtain w m where c: "foldl (classify ex) ([], []) names = (w, m)"
    by (cases "foldl (classify ex) ([], []) names")
  show ?case
  proof (cases "read_chunks d (chunkArrayInGroups w 50) ([], st)")
    case (Inl e)
    with returned_read_chunks_in [of rejection d "chunkArrayInGroups w 50" "([], st)"]
    obtain e' where "read_chunks_in rejection d (chunkArrayInGroups w 50) ([], st) = Inl e'"
      by (auto simp: returned_eq_None)
    with Inl c show ?thesis
      by (subst getMissingFilesRecursive_in.simps, subst getMissingFilesRecursive.simps) simp
  next
    case (Inr x)
    obtain refs1 st1 where x: "x = (refs1, st1)" by (cases x)
    from Inr returned_read_chunks_in [of rejection d "chunkArrayInGroups w 50" "([], st)"]
    have r: "read_chunks_in rejection d (chunkArrayInGroups w 50) ([], st) = Inr x"
      by (simp add: returned_eq_Some)
    show ?thesis
    proof (cases "refs1 = []")
      case True
      with Inr r x c show ?thesis
        by (subst getMissingFilesRecursive_in.simps, subst getMissingFilesRecursive.simps) simp
    next
      case False
      show ?thesis
      proof (cases "getMissingFilesRecursive d ex refs1 (Suc l) st1")
        case (Inl e)
        with IH [of refs1 st1]
        obtain e' where "getMissingFilesRecursive_in rejection d ex refs1 (Suc l) st1 = Inl e'"
          by (auto simp: returned_eq_None)
        with Inl Inr r x c False show ?thesis
          by (subst getMissingFilesRecursive_in.simps, subst getMissingFilesRecursive.simps)
             simp
      next
        case (Inr y)
        with IH [of refs1 st1]
        have "getMissingFilesRecursive_in rejection d ex refs1 (Suc l) st1 = Inr y"
          by (simp add: returned_eq_Some)
        with Inr \<open>read_chunks d (chunkArrayInGroups w 50) ([], st) = Inr x\<close> r x c False
        show ?thesis
          by (subst getMissingFilesRecursive_in.simps, subst getMissingFilesRecursive.simps)
             (simp split: prod.splits)
      qed
    qed
  qed
qed

lemma resolve_in_Inr:
  "getMissingFilesRecursive_in rejection d ex names l st = Inr x
     \<longleftrightarrow> getMissingFilesRecursive d ex names l st = Inr x"
  using returned_resolve_in [of rejection d ex names l st]
  by (metis returned_eq_Some)

section \<open>The traversal and the reference graph\<close>

lemma reachable_step:
  "reachable d ex names = set names \<union> (edges d ex)\<^sup>* `` (edges d ex `` set names)"
proof -
  have "(edges d ex)\<^sup>* = Id \<union> edges d ex O (edges d ex)\<^sup>*"
    by (metis rtrancl_unfold r_comp_rtrancl_eq)
  then have "(edges d ex)\<^sup>* `` set names
      = (Id \<union> edges d ex O (edges d ex)\<^sup>*) `` set names"
    by simp
  then show ?thesis
    unfolding reachable_def by (simp add: Un_Image relcomp_Image)
qed

lemma reachable_next:
  "level_refs d ex names = Inr next \<Longrightarrow>
     reachable d ex names = set names \<union> reachable d ex next"
  using reachable_step [of d ex names] by (simp add: level_refs_Inr reachable_def)

lemma reachable_leaf:
  "level_refs d ex names = Inr [] \<Longrightarrow> reachable d ex names = set names"
  using reachable_next [of d ex names "[]"] by (simp add: reachable_def)

lemma resolve_level_ok:
  "getMissingFilesRecursive d ex names l st = Inr x \<Longrightarrow> l \<le> 10"
  by (subst (asm) getMissingFilesRecursive_level) (simp split: if_splits)

lemma resolve_cases:
  assumes "getMissingFilesRecursive d ex names l st = Inr (r, st')"
  obtains (leaf) "l \<le> 10" "level_refs d ex names = Inr []"
      "r = \<lparr>missingFiles = level_missing ex names, referencedFiles = names\<rparr>"
      "st' = st + length (level_manifests ex names)"
    | (node) "next" child where "l \<le> 10" "level_refs d ex names = Inr next" "next \<noteq> []"
      "getMissingFilesRecursive d ex next (l + 1) (st + length (level_manifests ex names))
         = Inr (child, st')"
      "r = \<lparr>missingFiles = missingFiles child @ level_missing ex names,
            referencedFiles = referencedFiles child @ names\<rparr>"
proof -
  from assms have l: "l \<le> 10" by (rule resolve_level_ok)
  with assms obtain "next" where nx: "level_refs d ex names = Inr next"
    by (subst (asm) getMissingFilesRecursive_level) (auto split: sum.splits)
  show ?thesis
  proof (cases "next = []")
    case True
    with assms l nx show ?thesis
      by (subst (asm) getMissingFilesRecursive_level) (auto intro: leaf)
  next
    case False
    with assms l nx show ?thesis
      by (subst (asm) getMissingFilesRecursive_level) (auto split: sum.splits intro: node)
  qed
qed

lemma resolve_induct [consumes 1, case_names leaf node]:
  assumes "getMissingFilesRecursive d ex names l st = Inr (r, st')"
    and "\<And>names l st. l \<le> 10 \<Longrightarrow> level_refs d ex names = Inr [] \<Longrightarrow>
           P names l st \<lparr>missingFiles = level_missing ex names, referencedFiles = names\<rparr>
             (st + length (level_manifests ex names))"
    and "\<And>names l st next child st'. l \<le> 10 \<Longrightarrow> level_refs d ex names = Inr next \<Longrightarrow>
           next \<noteq> [] \<Longrightarrow>
           getMissingFilesRecursive d ex next (l + 1) (st + length (level_manifests ex names))
             = Inr (child, st') \<Longrightarrow>
           P next (l + 1) (st + length (level_manifests ex names)) child st' \<Longrightarrow>
           P names l st \<lparr>missingFiles = missingFiles child @ level_missing ex names,
                         referencedFiles = referencedFiles child @ names\<rparr> st'"
  shows "P names l st r st'"
  using assms(1)
proof (induction "11 - l" arbitrary: names l st r st')
  case 0
  then have "l \<le> 10" by (auto dest: resolve_level_ok)
  with 0 show ?case by simp
next
  case (Suc n)
  from Suc.prems show ?case
  proof (cases rule: resolve_cases)
    case leaf
    with assms(2) show ?thesis by simp
  next
    case (node "next" child)
    from Suc.hyps(2) have "n = 11 - (l + 1)" by simp
    from Suc.hyps(1) [OF this node(4)] have "P next (l + 1) (st + length (level_manifests ex names)) child st'" .
    with assms(3) node show ?thesis by simp
  qed
qed

lemma resolve_sets:
  "getMissingFilesRecursive d ex names l st = Inr (r, st') \<Longrightarrow>
     set (missingFiles r) = {f \<in> reachable d ex names. f \<notin> set ex}
     \<and> set (referencedFiles r) = reachable d ex names"
proof (induction d ex names l st arbitrary: r st' rule: getMissingFilesRecursive.induct)
  case (1 d ex names l st)
  from "1.prems" have l: "\<not> 10 < l"
    by (subst (asm) getMissingFilesRecursive_level) (simp split: if_splits)
  from "1.prems" l obtain "next" where nx: "level_refs d ex names = Inr next"
    by (subst (asm) getMissingFilesRecursive_level) (auto split: sum.splits)
  have cl: "foldl (classify ex) ([], []) names = (level_manifests ex names, level_missing ex names)"
    by (rule classify_levels)
  have rd: "read_chunks d (chunkArrayInGroups (level_manifests ex names) 50) ([], st)
              = Inr (next, st + length (level_manifests ex names))"
    by (simp add: read_level nx)
  show ?case
  proof (cases "next = []")
    case True
    with "1.prems" l nx have "missingFiles r = level_missing ex names
        \<and> referencedFiles r = names"
      by (subst (asm) getMissingFilesRecursive_level) auto
    then have "missingFiles r = level_missing ex names"
      and "referencedFiles r = names"
      by simp_all
    with True nx show ?thesis
      by (auto simp: reachable_leaf set_level_missing)
  next
    case False
    with "1.prems" l nx obtain child st2 where
      ch: "getMissingFilesRecursive d ex next (l + 1) (st + length (level_manifests ex names))
             = Inr (child, st2)"
      and r: "missingFiles r = missingFiles child @ level_missing ex names"
          "referencedFiles r = referencedFiles child @ names"
      by (subst (asm) getMissingFilesRecursive_level) (auto split: sum.splits)
    from "1.IH" [OF l cl [symmetric] rd refl False ch]
    have "set (missingFiles child) = {f \<in> reachable d ex next. f \<notin> set ex}"
      and "set (referencedFiles child) = reachable d ex next"
      by simp_all
    with r show ?thesis
      by (auto simp: reachable_next [OF nx] set_level_missing)
  qed
qed

lemma resolve_levels:
  assumes "getMissingFilesRecursive d ex names l st = Inr (r, st')"
  shows "missingFiles r = concat (rev (map (level_missing ex) (level_inputs d ex names (11 - l))))
    \<and> referencedFiles r = concat (rev (level_inputs d ex names (11 - l)))
    \<and> st' = st + sum_list (map (\<lambda>ns. length (level_manifests ex ns))
                              (level_inputs d ex names (11 - l)))"
  using assms
proof (induction rule: resolve_induct)
  case (leaf names l st)
  then have "11 - l = Suc (10 - l)" by simp
  with leaf show ?case by simp
next
  case (node names l st "next" child st')
  then have "11 - l = Suc (11 - (l + 1))" by simp
  with node show ?case by simp
qed

lemma resolve_step:
  assumes "getMissingFilesRecursive d ex names l st = Inr (r, st')"
  shows "\<exists>next child st1.
           read_chunks d (chunkArrayInGroups (fst (foldl (classify ex) ([], []) names)) 50)
             ([], st) = Inr (next, st1)
           \<and> (if next \<noteq> []
              then getMissingFilesRecursive d ex next (l + 1) st1 = Inr (child, st')
              else child = \<lparr>missingFiles = [], referencedFiles = []\<rparr> \<and> st' = st1)
           \<and> missingFiles r = missingFiles child @ snd (foldl (classify ex) ([], []) names)
           \<and> referencedFiles r = referencedFiles child @ names"
  using assms
proof (cases rule: resolve_cases)
  case leaf
  then show ?thesis
    by (simp add: classify_levels read_level)
next
  case (node "next" child)
  then show ?thesis
    by (simp add: classify_levels read_level)
qed

lemma resolve_depth:
  assumes "getMissingFilesRecursive d ex names l st = Inr (r, st')"
  shows "f \<in> set names \<Longrightarrow> (f, g) \<in> edges d ex ^^ k \<Longrightarrow> l + k \<le> 10"
  using assms
proof (induction arbitrary: f k rule: resolve_induct)
  case (leaf names l st)
  from level_refs_Inr [OF leaf(2)] have "edges d ex `` {f} = {}"
    using leaf.prems by auto
  have "k = 0"
  proof (cases k)
    case (Suc k')
    with leaf.prems(2) have "(f, g) \<in> edges d ex ^^ Suc k'" by simp
    then obtain h where "(f, h) \<in> edges d ex"
      by (rule relpow_Suc_E2)
    with \<open>edges d ex `` {f} = {}\<close> show ?thesis by blast
  qed simp
  with leaf show ?case by simp
next
  case (node names l st "next" child st')
  show ?case
  proof (cases k)
    case 0
    with node show ?thesis by simp
  next
    case (Suc k')
    with node.prems(2) have "(f, g) \<in> edges d ex ^^ Suc k'" by simp
    then obtain h where h: "(f, h) \<in> edges d ex" "(h, g) \<in> edges d ex ^^ k'"
      by (rule relpow_Suc_E2)
    with node.prems(1) level_refs_Inr [OF node(2)] have "h \<in> set next" by auto
    from node.IH [OF this h(2)] Suc show ?thesis by simp
  qed
qed

lemma resolve_total:
  assumes "l \<le> 10"
    and "\<forall>f \<in> set names. \<forall>g k. (f, g) \<in> edges d ex ^^ k \<longrightarrow> l + k \<le> 10"
    and "\<forall>m \<in> reachable d ex names. m \<in> set ex \<and> endsWith m ''.json'' \<longrightarrow> parses d m"
  shows "\<exists>x. getMissingFilesRecursive d ex names l st = Inr x"
  using assms
proof (induction "10 - l" arbitrary: names l st)
  case 0
  then have l: "l = 10" by simp
  have "set names \<subseteq> reachable d ex names"
    by (auto simp: reachable_def)
  with 0 level_refs_total [of names ex d] obtain "next" where
    nx: "level_refs d ex names = Inr next" by blast
  have "next = []"
  proof (rule ccontr)
    assume "next \<noteq> []"
    then obtain h where "h \<in> set next" by (cases "next") auto
    with level_refs_Inr [OF nx] obtain f where "f \<in> set names" "(f, h) \<in> edges d ex" by auto
    then have "(f, h) \<in> edges d ex ^^ 1" by simp
    with 0(3) \<open>f \<in> set names\<close> have "l + 1 \<le> 10" by blast
    with l show False by simp
  qed
  with nx l show ?case
    by (subst getMissingFilesRecursive_level) simp
next
  case (Suc n)
  have sub: "set names \<subseteq> reachable d ex names"
    by (auto simp: reachable_def)
  with Suc.prems level_refs_total [of names ex d] obtain "next" where
    nx: "level_refs d ex names = Inr next" by blast
  show ?case
  proof (cases "next = []")
    case True
    with nx Suc.prems(1) show ?thesis
      by (subst getMissingFilesRecursive_level) simp
  next
    case False
    have n: "n = 10 - (l + 1)" and l1: "l + 1 \<le> 10"
      using Suc.hyps(2) by simp_all
    have paths: "\<forall>f \<in> set next. \<forall>g k. (f, g) \<in> edges d ex ^^ k \<longrightarrow> (l + 1) + k \<le> 10"
    proof (intro ballI allI impI)
      fix h g k assume "h \<in> set next" "(h, g) \<in> edges d ex ^^ k"
      with level_refs_Inr [OF nx] obtain f where f: "f \<in> set names" "(f, h) \<in> edges d ex"
        by auto
      from f(2) \<open>(h, g) \<in> edges d ex ^^ k\<close> have "(f, g) \<in> edges d ex ^^ Suc k"
        by (rule relpow_Suc_I2)
      with Suc.prems(2) f(1) have "l + Suc k \<le> 10" by blast
      then show "l + 1 + k \<le> 10" by simp
    qed
    have "reachable d ex next \<subseteq> reachable d ex names"
      using reachable_next [OF nx] by auto
    with Suc.prems(3) have
      "\<forall>m \<in> reachable d ex next. m \<in> set ex \<and> endsWith m ''.json'' \<longrightarrow> parses d m"
      by blast
    from Suc.hyps(1) [OF n l1 paths this]
    obtain x where "getMissingFilesRecursive d ex next (l + 1)
        (st + length (level_manifests ex names)) = Inr x" by blast
    with nx False Suc.prems(1) show ?thesis
      by (subst getMissingFilesRecursive_level) (cases x, simp)
  qed
qed

lemma resolve_error:
  "getMissingFilesRecursive d ex names l st = Inl e \<Longrightarrow>
     e = TooDeepError
     \<or> (\<exists>m \<in> reachable d ex names.
           m \<in> set ex \<and> endsWith m ''.json'' \<and> readFileWithRefs d m = Inl e)"
proof (induction "11 - l" arbitrary: names l st)
  case 0
  then show ?case
    by (subst (asm) getMissingFilesRecursive_level) (simp split: if_splits)
next
  case (Suc n)
  show ?case
  proof (cases "level_refs d ex names")
    case (Inl e')
    with Suc.prems Suc.hyps(2) have "e' = e"
      by (subst (asm) getMissingFilesRecursive_level) (simp split: if_splits)
    with level_refs_Inl [OF Inl] show ?thesis
      by (auto simp: reachable_def)
  next
    case (Inr "next")
    with Suc.prems Suc.hyps(2) have "next \<noteq> [] \<and>
        getMissingFilesRecursive d ex next (l + 1)
                 (st + length (level_manifests ex names)) = Inl e"
      by (subst (asm) getMissingFilesRecursive_level)
         (simp split: if_splits sum.splits prod.splits)
    then have ne: "next \<noteq> []"
      and ch: "getMissingFilesRecursive d ex next (l + 1)
                 (st + length (level_manifests ex names)) = Inl e"
      by simp_all
    from Suc.hyps(2) have "n = 11 - (l + 1)" by simp
    from Suc.hyps(1) [OF this ch] reachable_next [OF Inr] show ?thesis
      by auto
  qed
qed

lemma relpow_iterate: "(m, m) \<in> R ^^ j \<Longrightarrow> (m, m) \<in> R ^^ (j * q)"
proof (induction q)
  case 0
  show ?case by simp
next
  case (Suc q)
  then have "(m, m) \<in> R ^^ (j * q) O R ^^ j" by auto
  then have "(m, m) \<in> R ^^ (j * q + j)" by (simp add: relpow_add)
  then show ?case by (simp add: add.commute)
qed

lemma cycle_long_path:
  assumes "(f, m) \<in> R\<^sup>*" and "(m, m) \<in> R\<^sup>+"
  shows "\<exists>k > n. (f, m) \<in> R ^^ k"
proof -
  from assms(1) obtain i where i: "(f, m) \<in> R ^^ i"
    by (auto dest: rtrancl_imp_relpow)
  from assms(2) obtain j where j: "0 < j" "(m, m) \<in> R ^^ j"
    by (auto simp: trancl_power)
  from relpow_iterate [OF j(2), of "Suc n"] i have "(f, m) \<in> R ^^ i O R ^^ (j * Suc n)"
    by auto
  then have "(f, m) \<in> R ^^ (i + j * Suc n)"
    by (simp add: relpow_add)
  moreover from j(1) have "Suc n \<le> j * Suc n"
    by (cases j) simp_all
  then have "n < i + j * Suc n"
    by linarith
  ultimately show ?thesis by blast
qed

lemma resolve_too_deep:
  assumes "f \<in> set names" and "(f, g) \<in> edges d ex ^^ k" and "10 < l + k"
    and "\<forall>m \<in> reachable d ex names. m \<in> set ex \<and> endsWith m ''.json'' \<longrightarrow> parses d m"
  shows "getMissingFilesRecursive d ex names l st = Inl TooDeepError"
proof (cases "getMissingFilesRecursive d ex names l st")
  case (Inl e)
  from resolve_error [OF Inl] assms(4) Inl show ?thesis
    by (fastforce dest: parses_read)
next
  case (Inr x)
  obtain r st' where "x = (r, st')" by (cases x)
  with Inr resolve_depth [OF _ assms(1,2), of l st r st'] assms(3) show ?thesis
    by simp
qed

lemma resolve_malformed:
  assumes "f \<in> set names" and "(f, m) \<in> edges d ex ^^ k" and "l + k \<le> 10"
    and "m \<in> set ex" and "endsWith m ''.json''" and "\<not> parses d m"
  shows "\<exists>e. getMissingFilesRecursive d ex names l st = Inl e \<and> e \<noteq> TooDeepError"
  using assms(1,2,3)
proof (induction k arbitrary: names l st f)
  case 0
  then have "m \<in> set names" and l: "\<not> 10 < l" by simp_all
  from level_refs_fails [OF this(1) assms(4,5,6)] obtain e where e: "level_refs d ex names = Inl e"
    by blast
  from level_refs_Inl [OF e] have "e \<noteq> TooDeepError"
    by (auto simp: readFileWithRefs_Inl)
  with e l show ?case
    by (subst getMissingFilesRecursive_level) simp
next
  case (Suc k)
  then have l: "\<not> 10 < l" by simp
  from Suc.prems(2) obtain h where h: "(f, h) \<in> edges d ex" "(h, m) \<in> edges d ex ^^ k"
    by (rule relpow_Suc_E2)
  show ?case
  proof (cases "level_refs d ex names")
    case (Inl e)
    from level_refs_Inl [OF Inl] have "e \<noteq> TooDeepError"
      by (auto simp: readFileWithRefs_Inl)
    with Inl l show ?thesis
      by (subst getMissingFilesRecursive_level) simp
  next
    case (Inr "next")
    with level_refs_Inr [OF Inr] Suc.prems(1) h(1) have hn: "h \<in> set next" by auto
    then have ne: "next \<noteq> []" by auto
    from Suc.prems(3) have "(l + 1) + k \<le> 10" by simp
    from Suc.IH [OF hn h(2) this, of "st + length (level_manifests ex names)"]
    obtain e where "getMissingFilesRecursive d ex next (l + 1)
        (st + length (level_manifests ex names)) = Inl e" "e \<noteq> TooDeepError"
      by blast
    with Inr ne l show ?thesis
      by (subst getMissingFilesRecursive_level) simp
  qed
qed

lemma resolve_cong:
  assumes "\<forall>f \<in> set ex. endsWith f ''.json'' \<longrightarrow> lookup d f = lookup d' f"
  shows "getMissingFilesRecursive d ex names l st = getMissingFilesRecursive d' ex names l st"
proof (induction "11 - l" arbitrary: names l st)
  case 0
  then have "10 < l" by simp
  then show ?case
    by (simp add: getMissingFilesRecursive_level [of d] getMissingFilesRecursive_level [of d'])
next
  case (Suc n)
  then have n: "n = 11 - (l + 1)" by simp
  have ih: "getMissingFilesRecursive d ex next (Suc l) st1
      = getMissingFilesRecursive d' ex next (Suc l) st1" for "next" st1
    using Suc.hyps(1) [OF n, of "next" st1] by simp
  show ?case
    by (subst getMissingFilesRecursive_level [of d], subst getMissingFilesRecursive_level [of d'])
       (simp add: level_refs_cong [OF assms] ih split: sum.splits)
qed

lemma chain_10:
  "getMissingFilesRecursive (chain_store 10) (getExistingFiles (chain_store 10)) [link 0] 0 0
     = Inr (\<lparr>missingFiles = [],
             referencedFiles = map link (rev [0..<11])\<rparr>, 11)"
  by code_simp

lemma chain_11:
  "getMissingFilesRecursive (chain_store 11) (getExistingFiles (chain_store 11)) [link 0] 0 0
     = Inl TooDeepError"
  by code_simp

section \<open>The file system operations\<close>

lemma map_of_filter_fst:
  "map_of (filter (\<lambda>e. P (fst e)) d) x = (if P x then map_of d x else None)"
  by (induction d) auto

lemma map_of_filter_neq:
  "map_of (filter (\<lambda>e. fst e \<noteq> a) d) x = (if x \<noteq> a then map_of d x else None)"
  using map_of_filter_fst [of "\<lambda>n. n \<noteq> a" d x] by simp

lemma map_of_filter_neq2:
  "map_of (filter (\<lambda>e. fst e \<noteq> a \<and> fst e \<noteq> b) d) x
     = (if x \<noteq> a \<and> x \<noteq> b then map_of d x else None)"
  using map_of_filter_fst [of "\<lambda>n. n \<noteq> a \<and> n \<noteq> b" d x] by simp

lemma lookup_eq_None: "lookup d f = None \<longleftrightarrow> joins_to_directory f \<or> f \<notin> fst ` set d"
  by (simp add: lookup_def joins_to_directory_def map_of_eq_None_iff)

lemma dom_lookup: "dom (lookup d) = set (readDirAsync d)"
proof -
  have "f \<in> dom (lookup d) \<longleftrightarrow> f \<in> set (readDirAsync d)" for f
    using lookup_eq_None [of d f] by (auto simp: readDirAsync_def joins_to_directory_def domIff)
  then show ?thesis by blast
qed

lemma set_getExistingFiles: "set (getExistingFiles d) = dom (lookup d)"
  by (simp add: getExistingFiles_def dom_lookup)

lemma lookup_rename:
  "renameAsync a b d = Inr d' \<Longrightarrow> lookup d' = ((lookup d)(a := None))(b := lookup d a)"
  by (rule ext)
     (auto simp: renameAsync_def lookup_def joins_to_directory_def map_of_filter_neq2
       split: option.splits if_splits)

lemma rename_ok:
  "lookup d a \<noteq> None \<Longrightarrow> \<not> joins_to_directory b \<Longrightarrow> \<exists>d'. renameAsync a b d = Inr d'"
  by (auto simp: renameAsync_def)

lemma rename_fails:
  "renameAsync a b d = Inl e \<Longrightarrow>
     e = IOError RenameCall a \<and> (lookup d a = None \<or> joins_to_directory b)"
  by (auto simp: renameAsync_def split: option.splits if_splits)

lemma lookup_unlink:
  "unlinkAsync a d = Inr d' \<Longrightarrow> lookup d' = (lookup d)(a := None)"
  by (rule ext)
     (auto simp: unlinkAsync_def lookup_def joins_to_directory_def map_of_filter_neq
       split: option.splits if_splits)

lemma unlink_ok: "lookup d a \<noteq> None \<Longrightarrow> \<exists>d'. unlinkAsync a d = Inr d'"
  by (auto simp: unlinkAsync_def)

lemma unlink_fails:
  "unlinkAsync a d = Inl e \<Longrightarrow> e = IOError UnlinkCall a \<and> lookup d a = None"
  by (auto simp: unlinkAsync_def split: option.splits)

lemma lookup_unlink_batch:
  "lookup (fst (run_batch (map Unlink fs) d)) = (\<lambda>n. if n \<in> set fs then None else lookup d n)"
proof (induction fs arbitrary: d)
  case Nil
  show ?case by simp
next
  case (Cons f fs)
  show ?case
  proof (cases "unlinkAsync f d")
    case (Inl e)
    then have "lookup d f = None" by (auto dest: unlink_fails)
    with Inl Cons [of d] show ?thesis by (auto simp: fun_eq_iff)
  next
    case (Inr d1)
    from lookup_unlink [OF Inr] Inr Cons [of d1] show ?thesis
      by (auto simp: fun_eq_iff)
  qed
qed

lemma unlink_batch_ok:
  "distinct fs \<Longrightarrow> \<forall>f \<in> set fs. lookup d f \<noteq> None \<Longrightarrow> snd (run_batch (map Unlink fs) d) = None"
proof (induction fs arbitrary: d)
  case Nil
  show ?case by simp
next
  case (Cons f fs)
  from Cons.prems obtain d1 where d1: "unlinkAsync f d = Inr d1"
    using unlink_ok [of d f] by auto
  from lookup_unlink [OF d1] Cons.prems have "\<forall>g \<in> set fs. lookup d1 g \<noteq> None"
    by auto
  with Cons.IH [of d1] Cons.prems(1) d1 show ?case by simp
qed

lemma unlink_batch_error:
  "snd (run_batch (map Unlink fs) d) = Some e \<Longrightarrow> \<exists>f \<in> set fs. e = IOError UnlinkCall f"
proof (induction fs arbitrary: d)
  case Nil
  then show ?case by simp
next
  case (Cons f fs)
  then show ?case
    by (cases "unlinkAsync f d") (auto dest: unlink_fails)
qed

lemma rename_batch_error:
  "snd (run_batch (map (\<lambda>f. Rename f (g f)) fs) d) = Some e \<Longrightarrow>
     \<exists>f \<in> set fs. e = IOError RenameCall f"
proof (induction fs arbitrary: d)
  case Nil
  then show ?case by simp
next
  case (Cons f fs)
  then show ?case
    by (cases "renameAsync f (g f) d") (auto dest: rename_fails)
qed

lemma rename_batch:
  assumes "distinct roots"
    and "\<forall>f \<in> set roots. lookup d f \<noteq> None \<and> \<not> joins_to_directory (g f) \<and> g f \<notin> set roots"
    and "inj_on g (set roots)"
  shows "\<exists>d1. run_batch (map (\<lambda>f. Rename f (g f)) roots) d = (d1, None)
    \<and> (\<forall>f \<in> set roots. lookup d1 (g f) = lookup d f)
    \<and> (\<forall>f \<in> set roots. lookup d1 f = None)
    \<and> (\<forall>n. n \<notin> set roots \<and> n \<notin> g ` set roots \<longrightarrow> lookup d1 n = lookup d n)"
  using assms
proof (induction roots arbitrary: d)
  case Nil
  show ?case by simp
next
  case (Cons f fs)
  from Cons.prems(2) obtain d0 where d0: "renameAsync f (g f) d = Inr d0"
    using rename_ok [of d f "g f"] by auto
  note l0 = lookup_rename [OF d0]
  from Cons.prems have gf: "g f \<notin> set fs" "g f \<noteq> f" "f \<notin> set fs" "g f \<notin> g ` set fs"
    by auto
  from Cons.prems(2) have fg: "f \<notin> g ` set fs"
    by auto
  have p2: "\<forall>h \<in> set fs. lookup d0 h \<noteq> None \<and> \<not> joins_to_directory (g h) \<and> g h \<notin> set fs"
  proof
    fix h assume h: "h \<in> set fs"
    with gf have "h \<noteq> f" "h \<noteq> g f" by auto
    with l0 have "lookup d0 h = lookup d h" by simp
    with Cons.prems(2) h
    show "lookup d0 h \<noteq> None \<and> \<not> joins_to_directory (g h) \<and> g h \<notin> set fs" by simp
  qed
  from Cons.prems have "distinct fs" "inj_on g (set fs)"
    by simp_all
  from Cons.IH [OF this(1) p2 this(2)] obtain d1 where
    b: "run_batch (map (\<lambda>f. Rename f (g f)) fs) d0 = (d1, None)"
    and n1: "\<forall>h \<in> set fs. lookup d1 (g h) = lookup d0 h"
    and n2: "\<forall>h \<in> set fs. lookup d1 h = None"
    and n3: "\<forall>n. n \<notin> set fs \<and> n \<notin> g ` set fs \<longrightarrow> lookup d1 n = lookup d0 n"
    by blast
  have "run_batch (map (\<lambda>f. Rename f (g f)) (f # fs)) d = (d1, None)"
    using d0 b by simp
  moreover have "\<forall>h \<in> set (f # fs). lookup d1 (g h) = lookup d h"
  proof
    fix h assume "h \<in> set (f # fs)"
    then consider "h = f" | "h \<in> set fs" by auto
    then show "lookup d1 (g h) = lookup d h"
    proof cases
      case 1
      with n3 gf have "lookup d1 (g h) = lookup d0 (g f)" by simp
      with l0 1 show ?thesis by simp
    next
      case 2
      with gf have "h \<noteq> f" "h \<noteq> g f" by auto
      with n1 2 l0 show ?thesis by simp
    qed
  qed
  moreover have "\<forall>h \<in> set (f # fs). lookup d1 h = None"
  proof
    fix h assume "h \<in> set (f # fs)"
    then consider "h = f" | "h \<in> set fs" by auto
    then show "lookup d1 h = None"
    proof cases
      case 1
      with n3 gf fg have "lookup d1 h = lookup d0 f" by simp
      with l0 gf 1 show ?thesis by simp
    next
      case 2
      with n2 show ?thesis by simp
    qed
  qed
  moreover have "\<forall>n. n \<notin> set (f # fs) \<and> n \<notin> g ` set (f # fs) \<longrightarrow> lookup d1 n = lookup d n"
    using n3 l0 by simp
  ultimately show ?case by blast
qed

section \<open>The branches of the call\<close>

lemma getMissingFilesForRootFiles_first:
  "getMissingFilesForRootFiles d roots policy suf
     = getMissingFilesForRootFiles_in hd (\<lambda>batch. batch) d roots policy suf"
  by (simp add: getMissingFilesForRootFiles_def id_def)

lemma foldl_rename_step:
  "foldl (rename_step suf) (a, b, ps) fs =
     (foldl (\<lambda>s f. Set_add (Set_delete s f) (permanentName f suf)) a fs,
      foldl (\<lambda>s f. Set_add (Set_delete s f) (permanentName f suf)) b fs,
      ps @ map (\<lambda>f. Rename f (permanentName f suf)) fs)"
  by (induction fs arbitrary: a b ps) (simp_all add: rename_step_def Let_def)

lemma issued_commit:
  assumes "getMissingFilesRecursive d (getExistingFiles d) roots 0 0 = Inr (r, st)"
    and "missingFiles r = []"
  shows "take (length roots) (issued (getMissingFilesForRootFiles d roots ''ifcomplete'' suf))
           = map (\<lambda>f. Rename f (permanentName f suf)) roots"
  using assms
  by (simp add: getMissingFilesForRootFiles_first getMissingFilesForRootFiles_in_def resolve_in_first foldl_rename_step Let_def
      split: prod.splits option.splits)

lemma set_renamed_set:
  "\<forall>f \<in> set roots. permanentName f suf \<notin> set roots \<Longrightarrow>
     set (renamed_set suf s roots)
       = (set s - set roots) \<union> (\<lambda>f. permanentName f suf) ` set roots"
proof (induction roots arbitrary: s)
  case Nil
  show ?case by (simp add: renamed_set_def)
next
  case (Cons f fs)
  have "renamed_set suf s (f # fs)
      = renamed_set suf (Set_add (Set_delete s f) (permanentName f suf)) fs"
    by (simp add: renamed_set_def)
  moreover from Cons.prems have "\<forall>g \<in> set fs. permanentName g suf \<notin> set fs"
    by simp
  ultimately show ?case
    using Cons.IH [of "Set_add (Set_delete s f) (permanentName f suf)"] Cons.prems
    by auto
qed

lemma run_error:
  "getMissingFilesRecursive d (getExistingFiles d) roots 0 0 = Inl e \<Longrightarrow>
     getMissingFilesForRootFiles d roots policy suf = \<lparr>result = Inl e, issued = [], store = d\<rparr>"
  by (simp add: getMissingFilesForRootFiles_first getMissingFilesForRootFiles_in_def resolve_in_first)

lemma run_verify:
  "getMissingFilesRecursive d (getExistingFiles d) roots 0 0 = Inr (r, st) \<Longrightarrow>
   policy \<noteq> ''ifcomplete'' \<Longrightarrow> policy \<noteq> ''no'' \<Longrightarrow>
     getMissingFilesForRootFiles d roots policy suf
       = \<lparr>result = Inr (missingFiles r), issued = [], store = d\<rparr>"
  by (simp add: getMissingFilesForRootFiles_first getMissingFilesForRootFiles_in_def resolve_in_first)

lemma run_rollback:
  "getMissingFilesRecursive d (getExistingFiles d) roots 0 0 = Inr (r, st) \<Longrightarrow>
   policy = ''no'' \<or> policy = ''ifcomplete'' \<and> missingFiles r \<noteq> [] \<Longrightarrow>
     getMissingFilesForRootFiles d roots policy suf
       = \<lparr>result = (case snd (run_batch (map Unlink roots) d) of
                      Some e \<Rightarrow> Inl e | None \<Rightarrow> Inr (missingFiles r)),
          issued = map Unlink roots,
          store = fst (run_batch (map Unlink roots) d)\<rparr>"
  by (auto simp: getMissingFilesForRootFiles_first getMissingFilesForRootFiles_in_def resolve_in_first Let_def split: prod.splits option.splits)

lemma run_commit:
  "getMissingFilesRecursive d (getExistingFiles d) roots 0 0 = Inr (r, st) \<Longrightarrow>
   missingFiles r = [] \<Longrightarrow>
     getMissingFilesForRootFiles d roots ''ifcomplete'' suf
       = (case run_batch (rename_list roots suf) d of
            (d1, Some e) \<Rightarrow> \<lparr>result = Inl e, issued = rename_list roots suf, store = d1\<rparr>
          | (d1, None) \<Rightarrow>
              \<lparr>result = (case snd (run_batch (map Unlink (prune_list d r roots suf)) d1) of
                           Some e \<Rightarrow> Inl e | None \<Rightarrow> Inr []),
               issued = rename_list roots suf @ map Unlink (prune_list d r roots suf),
               store = fst (run_batch (map Unlink (prune_list d r roots suf)) d1)\<rparr>)"
  by (auto simp: getMissingFilesForRootFiles_first getMissingFilesForRootFiles_in_def resolve_in_first Let_def foldl_rename_step renamed_set_def
      prune_list_def rename_list_def split: prod.splits option.splits)

lemma run_result_cases:
  assumes "getMissingFilesRecursive d (getExistingFiles d) roots 0 0 = Inr (r, st)"
  shows "result (getMissingFilesForRootFiles d roots policy suf) = Inr (missingFiles r)
         \<or> (\<exists>c f. result (getMissingFilesForRootFiles d roots policy suf) = Inl (IOError c f))"
proof -
  consider (verify) "policy \<noteq> ''ifcomplete''" "policy \<noteq> ''no''"
    | (rollback) "policy = ''no'' \<or> policy = ''ifcomplete'' \<and> missingFiles r \<noteq> []"
    | (commit) "policy = ''ifcomplete''" "missingFiles r = []"
    by blast
  then show ?thesis
  proof cases
    case verify
    with run_verify [OF assms] show ?thesis by simp
  next
    case rollback
    show ?thesis
    proof (cases "snd (run_batch (map Unlink roots) d)")
      case None
      with run_rollback [OF assms rollback, of suf] show ?thesis by simp
    next
      case (Some e)
      with unlink_batch_error [OF Some] run_rollback [OF assms rollback, of suf]
      show ?thesis by auto
    qed
  next
    case commit
    obtain d1 eo where b: "run_batch (rename_list roots suf) d = (d1, eo)"
      by (cases "run_batch (rename_list roots suf) d")
    show ?thesis
    proof (cases eo)
      case (Some e)
      with b have "snd (run_batch (map (\<lambda>f. Rename f (permanentName f suf)) roots) d) = Some e"
        by (simp add: rename_list_def)
      from rename_batch_error [OF this] b Some run_commit [OF assms commit(2), of suf] commit(1)
      show ?thesis by auto
    next
      case None
      show ?thesis
      proof (cases "snd (run_batch (map Unlink (prune_list d r roots suf)) d1)")
        case None': None
        with b None run_commit [OF assms commit(2), of suf] commit show ?thesis by simp
      next
        case (Some e)
        with unlink_batch_error [OF Some] b None run_commit [OF assms commit(2), of suf] commit(1)
        show ?thesis by auto
      qed
    qed
  qed
qed

lemma run_result_Inr:
  assumes "result (getMissingFilesForRootFiles d roots policy suf) = Inr ms"
  shows "\<exists>r st. getMissingFilesRecursive d (getExistingFiles d) roots 0 0 = Inr (r, st)
           \<and> ms = missingFiles r"
proof (cases "getMissingFilesRecursive d (getExistingFiles d) roots 0 0")
  case (Inl e)
  from run_error [OF Inl, of policy suf] assms show ?thesis by simp
next
  case (Inr x)
  obtain r st where x: "x = (r, st)" by (cases x)
  with Inr run_result_cases [of d roots r st policy suf] assms show ?thesis by auto
qed

lemma run_too_deep:
  assumes "result (getMissingFilesForRootFiles d roots policy suf) = Inl TooDeepError"
  shows "getMissingFilesForRootFiles d roots policy suf
           = \<lparr>result = Inl TooDeepError, issued = [], store = d\<rparr>"
proof (cases "getMissingFilesRecursive d (getExistingFiles d) roots 0 0")
  case (Inl e)
  from run_error [OF Inl, of policy suf] assms show ?thesis by simp
next
  case (Inr x)
  obtain r st where "x = (r, st)" by (cases x)
  with Inr run_result_cases [of d roots r st policy suf] assms show ?thesis by auto
qed

section \<open>Any order of completion\<close>

text \<open>
  What a batch of deletions or of renames does when its operations take effect in an
  arbitrary order, and the branches of the call with the two parameters.
\<close>

lemma completion_order_id: "completion_order id"
  by (simp add: completion_order_def)

lemma completion_order_rotate1: "completion_order rotate1"
proof -
  have "mset (rotate1 batch) = mset batch" for batch :: "fs_op list"
    by (cases batch) simp_all
  then show ?thesis by (simp add: completion_order_def)
qed

lemma completion_order_rev: "completion_order rev"
  by (simp add: completion_order_def)

lemma completion_of_map:
  assumes "completion_order completion" and "inj h"
  shows "\<exists>xs'. completion (map h xs) = map h xs' \<and> mset xs' = mset xs"
proof -
  let ?ys = "completion (map h xs)"
  from assms(1) have m: "mset ?ys = mset (map h xs)"
    by (simp add: completion_order_def)
  then have "set ?ys = h ` set xs"
    by (metis mset_eq_setD set_map)
  then have "(h \<circ> inv h) y = y" if "y \<in> set ?ys" for y
    using that by (auto simp: f_inv_into_f)
  then have "map (h \<circ> inv h) ?ys = ?ys"
    by (rule map_idI)
  then have "map h (map (inv h) ?ys) = ?ys"
    by simp
  moreover have "mset (map (inv h) ?ys) = mset xs"
  proof -
    have "mset (map (inv h) ?ys) = image_mset (inv h) (mset ?ys)"
      by simp
    also have "\<dots> = image_mset (inv h) (image_mset h (mset xs))"
      using m by simp
    also have "\<dots> = mset xs"
      using assms(2) by (simp add: multiset.map_comp comp_def)
    finally show ?thesis .
  qed
  ultimately show ?thesis by metis
qed


lemma unlink_batch_None_iff:
  "snd (run_batch (map Unlink fs) d) = None
     \<longleftrightarrow> distinct fs \<and> (\<forall>f \<in> set fs. lookup d f \<noteq> None)"
proof (induction fs arbitrary: d)
  case Nil
  show ?case by simp
next
  case (Cons f fs)
  show ?case
  proof (cases "unlinkAsync f d")
    case (Inl e)
    then have "lookup d f = None" by (auto dest: unlink_fails)
    with Inl show ?thesis by simp
  next
    case (Inr d1)
    then have p: "lookup d f \<noteq> None"
      by (auto simp: unlinkAsync_def split: option.splits)
    from lookup_unlink [OF Inr] have l: "lookup d1 = (lookup d)(f := None)" .
    have "(\<forall>g \<in> set fs. lookup d1 g \<noteq> None)
        \<longleftrightarrow> f \<notin> set fs \<and> (\<forall>g \<in> set fs. lookup d g \<noteq> None)"
      by (auto simp: l)
    with Cons [of d1] Inr p show ?thesis by auto
  qed
qed

lemma unlink_completion:
  assumes "completion_order completion"
  shows "\<exists>fs'. completion (map Unlink fs) = map Unlink fs' \<and> set fs' = set fs
           \<and> (distinct fs' \<longleftrightarrow> distinct fs)"
proof -
  have "inj Unlink" by (simp add: inj_def)
  from completion_of_map [OF assms this, of fs] obtain fs' where
    "completion (map Unlink fs) = map Unlink fs'" "mset fs' = mset fs"
    by blast
  then show ?thesis
    by (metis mset_eq_setD mset_eq_imp_distinct_iff)
qed

lemma rename_completion:
  assumes "completion_order completion"
  shows "\<exists>fs'. completion (map (\<lambda>f. Rename f (g f)) fs) = map (\<lambda>f. Rename f (g f)) fs'
           \<and> set fs' = set fs \<and> (distinct fs' \<longleftrightarrow> distinct fs)"
proof -
  have "inj (\<lambda>f. Rename f (g f))" by (simp add: inj_def)
  from completion_of_map [OF assms this, of fs] obtain fs' where
    "completion (map (\<lambda>f. Rename f (g f)) fs) = map (\<lambda>f. Rename f (g f)) fs'"
    "mset fs' = mset fs"
    by blast
  then show ?thesis
    by (metis mset_eq_setD mset_eq_imp_distinct_iff)
qed

lemma rename_batch_None_iff:
  assumes "distinct fs" and "\<forall>f \<in> set fs. lookup d f \<noteq> None"
  shows "snd (run_batch (map (\<lambda>f. Rename f (g f)) fs) d) = None
           \<longleftrightarrow> (\<forall>f \<in> set fs. \<not> joins_to_directory (g f))"
  using assms
proof (induction fs arbitrary: d)
  case Nil
  show ?case by simp
next
  case (Cons f fs)
  show ?case
  proof (cases "renameAsync f (g f) d")
    case (Inl e)
    with Cons.prems(2) have "joins_to_directory (g f)" by (auto dest: rename_fails)
    with Inl show ?thesis by simp
  next
    case (Inr d1)
    then have t: "\<not> joins_to_directory (g f)"
      by (auto simp: renameAsync_def split: option.splits if_splits)
    from lookup_rename [OF Inr] have l: "lookup d1 = ((lookup d)(f := None))(g f := lookup d f)" .
    have "\<forall>h \<in> set fs. lookup d1 h \<noteq> None"
      using Cons.prems by (auto simp: l)
    with Cons.IH [of d1] Cons.prems(1) Inr t show ?thesis by simp
  qed
qed

lemma rename_batch_untouched:
  "n \<notin> set fs \<Longrightarrow> n \<notin> g ` set fs \<Longrightarrow>
     lookup (fst (run_batch (map (\<lambda>f. Rename f (g f)) fs) d)) n = lookup d n"
proof (induction fs arbitrary: d)
  case Nil
  show ?case by simp
next
  case (Cons f fs)
  show ?case
  proof (cases "renameAsync f (g f) d")
    case (Inl e)
    with Cons show ?thesis by simp
  next
    case (Inr d1)
    from lookup_rename [OF Inr] Cons.prems have "lookup d1 n = lookup d n" by auto
    with Cons.IH [of d1] Cons.prems Inr show ?thesis by simp
  qed
qed

lemma set_renamed_diff:
  "set (renamed_set suf a fs) - set (renamed_set suf b fs)
     = (set a - set b) - (set fs \<union> (\<lambda>f. permanentName f suf) ` set fs)"
proof (induction fs arbitrary: a b)
  case Nil
  show ?case by (simp add: renamed_set_def)
next
  case (Cons f fs)
  have "renamed_set suf a (f # fs)
      = renamed_set suf (Set_add (Set_delete a f) (permanentName f suf)) fs" for a
    by (simp add: renamed_set_def)
  with Cons.IH [of "Set_add (Set_delete a f) (permanentName f suf)"
      "Set_add (Set_delete b f) (permanentName f suf)"]
  show ?case by auto
qed

lemma set_prune_list:
  "set (prune_list d r roots suf)
     = (set (readDirAsync d) - set (referencedFiles r))
       - (set roots \<union> (\<lambda>f. permanentName f suf) ` set roots)"
  by (simp add: prune_list_def set_renamed_diff getExistingFiles_def)

lemma distinct_prune_list: "distinct (prune_list d r roots suf)"
  by (simp add: prune_list_def)

lemma run_in_error:
  "getMissingFilesRecursive_in rejection d (getExistingFiles d) roots 0 0 = Inl e \<Longrightarrow>
     getMissingFilesForRootFiles_in rejection completion d roots policy suf
       = \<lparr>result = Inl e, issued = [], store = d\<rparr>"
  by (simp add: getMissingFilesForRootFiles_in_def)

lemma run_in_verify:
  "getMissingFilesRecursive_in rejection d (getExistingFiles d) roots 0 0 = Inr (r, st) \<Longrightarrow>
   policy \<noteq> ''ifcomplete'' \<Longrightarrow> policy \<noteq> ''no'' \<Longrightarrow>
     getMissingFilesForRootFiles_in rejection completion d roots policy suf
       = \<lparr>result = Inr (missingFiles r), issued = [], store = d\<rparr>"
  by (simp add: getMissingFilesForRootFiles_in_def)

lemma run_in_rollback:
  "getMissingFilesRecursive_in rejection d (getExistingFiles d) roots 0 0 = Inr (r, st) \<Longrightarrow>
   policy = ''no'' \<or> policy = ''ifcomplete'' \<and> missingFiles r \<noteq> [] \<Longrightarrow>
     getMissingFilesForRootFiles_in rejection completion d roots policy suf
       = \<lparr>result = (case snd (run_batch (completion (map Unlink roots)) d) of
                      Some e \<Rightarrow> Inl e | None \<Rightarrow> Inr (missingFiles r)),
          issued = map Unlink roots,
          store = fst (run_batch (completion (map Unlink roots)) d)\<rparr>"
  by (auto simp: getMissingFilesForRootFiles_in_def Let_def split: prod.splits option.splits)

lemma run_in_commit:
  "getMissingFilesRecursive_in rejection d (getExistingFiles d) roots 0 0 = Inr (r, st) \<Longrightarrow>
   missingFiles r = [] \<Longrightarrow>
     getMissingFilesForRootFiles_in rejection completion d roots ''ifcomplete'' suf
       = (case run_batch (completion (rename_list roots suf)) d of
            (d1, Some e) \<Rightarrow> \<lparr>result = Inl e, issued = rename_list roots suf, store = d1\<rparr>
          | (d1, None) \<Rightarrow>
              \<lparr>result = (case snd (run_batch
                             (completion (map Unlink (prune_list d r roots suf))) d1) of
                           Some e \<Rightarrow> Inl e | None \<Rightarrow> Inr []),
               issued = rename_list roots suf @ map Unlink (prune_list d r roots suf),
               store = fst (run_batch
                             (completion (map Unlink (prune_list d r roots suf))) d1)\<rparr>)"
  by (auto simp: getMissingFilesForRootFiles_in_def Let_def foldl_rename_step renamed_set_def
      prune_list_def rename_list_def split: prod.splits option.splits)

lemma rollback_outcome:
  assumes "getMissingFilesRecursive_in rejection d (getExistingFiles d) roots 0 0 = Inr (r, st)"
    and "policy = ''no'' \<or> policy = ''ifcomplete'' \<and> missingFiles r \<noteq> []"
    and "completion_order completion"
  shows "issued (getMissingFilesForRootFiles_in rejection completion d roots policy suf) = map Unlink roots"
    and "lookup (store (getMissingFilesForRootFiles_in rejection completion d roots policy suf))
           = (\<lambda>name. if name \<in> set roots then None else lookup d name)"
    and "returned (result (getMissingFilesForRootFiles_in rejection completion d roots policy suf))
           = (if distinct roots \<and> (\<forall>f \<in> set roots. lookup d f \<noteq> None)
              then Some (missingFiles r) else None)"
proof -
  from unlink_completion [OF assms(3), of roots] obtain fs' where
    c: "completion (map Unlink roots) = map Unlink fs'" and s: "set fs' = set roots"
    and dd: "distinct fs' \<longleftrightarrow> distinct roots"
    by blast
  note run = run_in_rollback [OF assms(1,2), of completion suf]
  show "issued (getMissingFilesForRootFiles_in rejection completion d roots policy suf) = map Unlink roots"
    by (simp add: run)
  show "lookup (store (getMissingFilesForRootFiles_in rejection completion d roots policy suf))
           = (\<lambda>name. if name \<in> set roots then None else lookup d name)"
    by (simp add: run c lookup_unlink_batch s)
  show "returned (result (getMissingFilesForRootFiles_in rejection completion d roots policy suf))
           = (if distinct roots \<and> (\<forall>f \<in> set roots. lookup d f \<noteq> None)
              then Some (missingFiles r) else None)"
    using unlink_batch_None_iff [of fs' d] s dd
    by (auto simp: run c returned_def split: option.splits)
qed

lemma commit_outcome:
  assumes h: "getMissingFilesRecursive_in rejection d (getExistingFiles d) roots 0 0 = Inr (r, st)"
    and m: "missingFiles r = []"
    and dr: "distinct roots"
    and co: "completion_order completion"
  shows "(if \<forall>f \<in> set roots. \<not> joins_to_directory (permanentName f suf)
          then returned (result (getMissingFilesForRootFiles_in rejection completion d roots
                                   ''ifcomplete'' suf)) = Some []
            \<and> issued (getMissingFilesForRootFiles_in rejection completion d roots ''ifcomplete'' suf)
                = rename_list roots suf @ map Unlink (prune_list d r roots suf)
          else returned (result (getMissingFilesForRootFiles_in rejection completion d roots
                                   ''ifcomplete'' suf)) = None
            \<and> issued (getMissingFilesForRootFiles_in rejection completion d roots ''ifcomplete'' suf)
                = rename_list roots suf)"
proof -
  let ?g = "\<lambda>f. permanentName f suf"
  let ?P = "prune_list d r roots suf"
  from h have h0: "getMissingFilesRecursive d (getExistingFiles d) roots 0 0 = Inr (r, st)"
    by (simp add: resolve_in_Inr)
  from resolve_sets [OF h0] m have R: "set (referencedFiles r) = reachable d (getExistingFiles d) roots"
    and sub: "reachable d (getExistingFiles d) roots \<subseteq> set (getExistingFiles d)"
    by auto
  have roots: "set roots \<subseteq> reachable d (getExistingFiles d) roots"
    by (auto simp: reachable_def)
  from rename_completion [OF co, of ?g roots] obtain fs' where
    c: "completion (rename_list roots suf) = map (\<lambda>f. Rename f (?g f)) fs'"
    and s: "set fs' = set roots" and dd: "distinct fs' \<longleftrightarrow> distinct roots"
    unfolding rename_list_def by blast
  have present: "\<forall>f \<in> set fs'. lookup d f \<noteq> None"
    using roots sub s by (auto simp: set_getExistingFiles)
  from dd dr have dfs: "distinct fs'" by simp
  note iff = rename_batch_None_iff [OF dfs present, of ?g]
  obtain d1 eo where b: "run_batch (map (\<lambda>f. Rename f (?g f)) fs') d = (d1, eo)"
    by (cases "run_batch (map (\<lambda>f. Rename f (?g f)) fs') d")
  note run = run_in_commit [OF h m, of completion suf]
  show ?thesis
  proof (cases "\<forall>f \<in> set roots. \<not> joins_to_directory (?g f)")
    case False
    with iff s b obtain e where "eo = Some e" by (cases eo) auto
    with b c run False show ?thesis by (simp add: returned_def)
  next
    case True
    with iff s b have eo: "eo = None" by simp
    from unlink_completion [OF co, of ?P] obtain ps' where
      cp: "completion (map Unlink ?P) = map Unlink ps'" and sp: "set ps' = set ?P"
      and dp: "distinct ps' \<longleftrightarrow> distinct ?P"
      by blast
    have "\<forall>n \<in> set ps'. lookup d1 n \<noteq> None"
    proof
      fix n assume "n \<in> set ps'"
      with sp have n: "n \<in> set (readDirAsync d)" "n \<notin> set fs'" "n \<notin> ?g ` set fs'"
        by (auto simp: set_prune_list s)
      from rename_batch_untouched [OF n(2,3), of d] b have "lookup d1 n = lookup d n"
        by simp
      with n(1) show "lookup d1 n \<noteq> None"
        by (auto simp: dom_lookup [symmetric])
    qed
    with unlink_batch_None_iff [of ps' d1] dp
    have "snd (run_batch (map Unlink ps') d1) = None"
      by (simp add: distinct_prune_list)
    with b c cp eo run True show ?thesis by (simp add: returned_def)
  qed
qed

text \<open>
  What the two choices do decide: with two unparseable manifests in one chunk, the error
  that is thrown; with a root that is renamed to the name of another root, the store that
  a commit leaves.
\<close>

lemma order_decides_error_and_store:
  "result (getMissingFilesForRootFiles_in hd id
             (store_ab (Malformed ''one'') (Malformed ''two''))
             [''a.json'', ''b.json''] ''verify'' ''.t'') = Inl (SyntaxError ''one'')
   \<and> result (getMissingFilesForRootFiles_in last id
             (store_ab (Malformed ''one'') (Malformed ''two''))
             [''a.json'', ''b.json''] ''verify'' ''.t'') = Inl (SyntaxError ''two'')
   \<and> store (getMissingFilesForRootFiles_in hd id (twice_staged ''one'')
             [''a.t'', ''a.t.t''] ''ifcomplete'' ''.t'')
       = [(''a.t'', Malformed ''two''), (''a'', Malformed ''one'')]
   \<and> store (getMissingFilesForRootFiles_in hd rev (twice_staged ''one'')
             [''a.t'', ''a.t.t''] ''ifcomplete'' ''.t'')
       = [(''a'', Malformed ''two'')]"
  by code_simp

section \<open>The claims\<close>

subsection \<open>The missing-file list\<close>

text \<open>
  When no chain of references that starts at a root is longer than 10 and every reachable
  manifest parses, the resolution returns. As sets its two lists are what is expected: the
  names in the missing-file list are the names reachable from the roots that are not in
  the directory snapshot, and the names in the referenced list are the reachable names.
  The missing-file list is the missing sets of the levels one after another, the deepest
  level first, and the missing set of one level holds a name once, however many manifests
  of that level reference it.
\<close>

lemma missing_files_by_level:
  assumes "\<forall>f \<in> set roots. \<forall>g k. (f, g) \<in> edges d (getExistingFiles d) ^^ k \<longrightarrow> k \<le> 10"
    and "\<forall>m \<in> reachable d (getExistingFiles d) roots.
           m \<in> set (getExistingFiles d) \<and> endsWith m ''.json'' \<longrightarrow> parses d m"
  shows "\<exists>r st. getMissingFilesRecursive d (getExistingFiles d) roots 0 0 = Inr (r, st)
    \<and> set (missingFiles r)
        = {f \<in> reachable d (getExistingFiles d) roots. f \<notin> set (readDirAsync d)}
    \<and> set (referencedFiles r) = reachable d (getExistingFiles d) roots
    \<and> missingFiles r
        = concat (rev (map (level_missing (getExistingFiles d))
                         (level_inputs d (getExistingFiles d) roots 11)))
    \<and> (\<forall>names. distinct (level_missing (getExistingFiles d) names))"
proof -
  from assms(1) have "\<forall>f \<in> set roots. \<forall>g k.
      (f, g) \<in> edges d (getExistingFiles d) ^^ k \<longrightarrow> 0 + k \<le> 10"
    by simp
  from resolve_total [OF _ this assms(2), of 0]
  obtain r st where h: "getMissingFilesRecursive d (getExistingFiles d) roots 0 0 = Inr (r, st)"
    by auto
  from resolve_levels [OF h]
  have "missingFiles r = concat (rev (map (level_missing (getExistingFiles d))
      (level_inputs d (getExistingFiles d) roots 11)))"
    by simp
  moreover have "\<forall>names. distinct (level_missing (getExistingFiles d) names)"
    by (simp add: level_missing_def)
  ultimately show ?thesis
    using resolve_sets [OF h] h by (auto simp: getExistingFiles_def)
qed

text \<open>
  Claim C1. The missing-file list is to hold a name once even when manifests at different
  depths reference it, and the comment at the head of the first loop says so too: the same
  file may be referenced several times by different files, ``but we only want to mark the
  same filename as missing once''. The sets that the loop fills for this are made anew at
  every level, and the merge appends the lists of the levels. In \<open>store_shared\<close> the
  absent name \<open>x\<close> is referenced by \<open>root.json\<close> and by \<open>a.json\<close>, which \<open>root.json\<close>
  references too, so that \<open>x\<close> is met at depth 1 and at depth 2: it is listed twice, in the
  missing-file list and in the referenced list.
\<close>

theorem missing_files_repeat_across_levels:
  "getMissingFilesRecursive store_shared (getExistingFiles store_shared) [''root.json''] 0 0
     = Inr (\<lparr>missingFiles = [''x'', ''x''],
             referencedFiles = [''x'', ''a.json'', ''x'', ''root.json'']\<rparr>, 2)
   \<and> \<not> distinct [''x'', ''x'']
   \<and> \<not> distinct [''x'', ''a.json'', ''x'', ''root.json'']"
  by code_simp

subsection \<open>The depth limit\<close>

text \<open>
  Claim C2. The depth counter is 0 at the roots and grows by one with each reference
  followed; a chain of \<open>n\<close> levels is a chain whose last file is \<open>n\<close> references away from
  a root. Provided every reachable manifest parses: if no chain is longer than 10 the
  resolution returns, and if some chain is longer than 10, as it is whenever a manifest
  lies on a cycle, the call throws the too-deep error. Whenever the call throws that
  error it has started no file system operation and the store is as before, whatever the
  policy and the suffix. The chain of exactly 10 references resolves; the chain of 11
  does not.
\<close>

theorem depth_limit_is_ten:
  "((\<forall>m \<in> reachable d (getExistingFiles d) roots.
        m \<in> set (getExistingFiles d) \<and> endsWith m ''.json'' \<longrightarrow> parses d m)
      \<and> (\<forall>f \<in> set roots. \<forall>g k. (f, g) \<in> edges d (getExistingFiles d) ^^ k \<longrightarrow> k \<le> 10) \<longrightarrow>
        (\<exists>r st. getMissingFilesRecursive d (getExistingFiles d) roots 0 0 = Inr (r, st)))
   \<and> ((\<forall>m \<in> reachable d (getExistingFiles d) roots.
        m \<in> set (getExistingFiles d) \<and> endsWith m ''.json'' \<longrightarrow> parses d m)
      \<and> (\<exists>f \<in> set roots. \<exists>g k. 10 < k \<and> (f, g) \<in> edges d (getExistingFiles d) ^^ k) \<longrightarrow>
        getMissingFilesForRootFiles d roots policy suf
          = \<lparr>result = Inl TooDeepError, issued = [], store = d\<rparr>)
   \<and> ((\<forall>m \<in> reachable d (getExistingFiles d) roots.
        m \<in> set (getExistingFiles d) \<and> endsWith m ''.json'' \<longrightarrow> parses d m)
      \<and> (\<exists>f \<in> set roots. \<exists>m. (f, m) \<in> (edges d (getExistingFiles d))\<^sup>*
            \<and> (m, m) \<in> (edges d (getExistingFiles d))\<^sup>+) \<longrightarrow>
        getMissingFilesForRootFiles d roots policy suf
          = \<lparr>result = Inl TooDeepError, issued = [], store = d\<rparr>)
   \<and> (result (getMissingFilesForRootFiles d roots policy suf) = Inl TooDeepError \<longrightarrow>
        issued (getMissingFilesForRootFiles d roots policy suf) = []
        \<and> store (getMissingFilesForRootFiles d roots policy suf) = d)
   \<and> (\<exists>r st. getMissingFilesRecursive (chain_store 10) (getExistingFiles (chain_store 10))
               [link 0] 0 0 = Inr (r, st))
   \<and> getMissingFilesForRootFiles (chain_store 11) [link 0] policy suf
       = \<lparr>result = Inl TooDeepError, issued = [], store = chain_store 11\<rparr>"
proof (intro conjI impI; (elim conjE)?)
  let ?E = "edges d (getExistingFiles d)"
  assume ok: "\<forall>m \<in> reachable d (getExistingFiles d) roots.
        m \<in> set (getExistingFiles d) \<and> endsWith m ''.json'' \<longrightarrow> parses d m"
    and b: "\<forall>f \<in> set roots. \<forall>g k. (f, g) \<in> ?E ^^ k \<longrightarrow> k \<le> 10"
  from b have "\<forall>f \<in> set roots. \<forall>g k. (f, g) \<in> ?E ^^ k \<longrightarrow> 0 + k \<le> 10"
    by simp
  from resolve_total [OF _ this ok, of 0]
  show "\<exists>r st. getMissingFilesRecursive d (getExistingFiles d) roots 0 0 = Inr (r, st)"
    by auto
next
  let ?E = "edges d (getExistingFiles d)"
  assume ok: "\<forall>m \<in> reachable d (getExistingFiles d) roots.
        m \<in> set (getExistingFiles d) \<and> endsWith m ''.json'' \<longrightarrow> parses d m"
    and "\<exists>f \<in> set roots. \<exists>g k. 10 < k \<and> (f, g) \<in> ?E ^^ k"
  then obtain f g k where "f \<in> set roots" "(f, g) \<in> ?E ^^ k" "10 < 0 + k"
    by auto
  from run_error [OF resolve_too_deep [OF this ok]]
  show "getMissingFilesForRootFiles d roots policy suf
            = \<lparr>result = Inl TooDeepError, issued = [], store = d\<rparr>" .
next
  let ?E = "edges d (getExistingFiles d)"
  assume ok: "\<forall>m \<in> reachable d (getExistingFiles d) roots.
        m \<in> set (getExistingFiles d) \<and> endsWith m ''.json'' \<longrightarrow> parses d m"
    and "\<exists>f \<in> set roots. \<exists>m. (f, m) \<in> ?E\<^sup>* \<and> (m, m) \<in> ?E\<^sup>+"
  then obtain f m where f: "f \<in> set roots" and c: "(f, m) \<in> ?E\<^sup>*" "(m, m) \<in> ?E\<^sup>+"
    by auto
  from cycle_long_path [OF c, of 10] obtain k where "10 < 0 + k" "(f, m) \<in> ?E ^^ k"
    by auto
  from run_error [OF resolve_too_deep [OF f this(2,1) ok]]
  show "getMissingFilesForRootFiles d roots policy suf
            = \<lparr>result = Inl TooDeepError, issued = [], store = d\<rparr>" .
next
  assume t: "result (getMissingFilesForRootFiles d roots policy suf) = Inl TooDeepError"
  from run_too_deep [OF t]
  show "issued (getMissingFilesForRootFiles d roots policy suf) = []"
    by simp
next
  assume t: "result (getMissingFilesForRootFiles d roots policy suf) = Inl TooDeepError"
  from run_too_deep [OF t]
  show "store (getMissingFilesForRootFiles d roots policy suf) = d"
    by simp
next
  from chain_10
  show "\<exists>r st. getMissingFilesRecursive (chain_store 10) (getExistingFiles (chain_store 10))
                 [link 0] 0 0 = Inr (r, st)"
    by blast
next
  from run_error [OF chain_11]
  show "getMissingFilesForRootFiles (chain_store 11) [link 0] policy suf
        = \<lparr>result = Inl TooDeepError, issued = [], store = chain_store 11\<rparr>" .
qed

theorem depth_limit_is_ten_witness:
  "getMissingFilesForRootFiles loop_store [''root.json''] ''ifcomplete'' ''.tmp''
     = \<lparr>result = Inl TooDeepError, issued = [], store = loop_store\<rparr>
   \<and> (''root.json'', ''root.json'') \<in> (edges loop_store (getExistingFiles loop_store))\<^sup>+
   \<and> (\<exists>k > 10. (''root.json'', ''root.json'')
          \<in> edges loop_store (getExistingFiles loop_store) ^^ k)
   \<and> (\<exists>r st. getMissingFilesRecursive scenario1 (getExistingFiles scenario1)
          [''root.json''] 0 0 = Inr (r, st))
   \<and> getMissingFilesForRootFiles (chain_store 11) [link 0] ''ifcomplete'' ''.tmp''
     = \<lparr>result = Inl TooDeepError, issued = [], store = chain_store 11\<rparr>"
proof -
  let ?ex = "getExistingFiles loop_store"
  let ?ex1 = "getExistingFiles scenario1"
  have ex: "?ex = [''root.json'', ''loop.json'', ''other'']"
    by code_simp
  have ok: "\<forall>m \<in> reachable loop_store ?ex [''root.json''].
      m \<in> set ?ex \<and> endsWith m ''.json'' \<longrightarrow> parses loop_store m"
    unfolding ex by (auto simp: parses_def lookup_def joins_to_directory_def loop_store_def endsWith_def)
  have "manifest_refs loop_store ?ex ''root.json'' = [''loop.json'']"
    unfolding ex
    by (simp add: manifest_refs_def lookup_def joins_to_directory_def loop_store_def endsWith_def
        referencedFileNames_def Object_values_def)
  then have e1: "(''root.json'', ''loop.json'') \<in> edges loop_store ?ex"
    by (simp add: edges_def)
  have "manifest_refs loop_store ?ex ''loop.json'' = [''root.json'']"
    unfolding ex
    by (simp add: manifest_refs_def lookup_def joins_to_directory_def loop_store_def endsWith_def
        referencedFileNames_def Object_values_def)
  then have e2: "(''loop.json'', ''root.json'') \<in> edges loop_store ?ex"
    by (simp add: edges_def)
  from e1 e2 have cyc: "(''root.json'', ''root.json'') \<in> (edges loop_store ?ex)\<^sup>+"
    by (rule trancl_into_trancl [OF r_into_trancl])
  from cycle_long_path [OF rtrancl.rtrancl_refl cyc, of 10]
  have long: "\<exists>k > 10. (''root.json'', ''root.json'') \<in> edges loop_store ?ex ^^ k" .
  then have p2: "\<exists>f \<in> set [''root.json'']. \<exists>g k. 10 < k \<and> (f, g) \<in> edges loop_store ?ex ^^ k"
    by auto
  have p3: "\<exists>f \<in> set [''root.json'']. \<exists>m. (f, m) \<in> (edges loop_store ?ex)\<^sup>*
      \<and> (m, m) \<in> (edges loop_store ?ex)\<^sup>+"
    using cyc by auto
  have h1: "getMissingFilesRecursive scenario1 ?ex1 [''root.json''] 0 0
      = Inr (\<lparr>missingFiles = [''blob1''],
               referencedFiles = [''blob1'', ''a.json'', ''b.json'', ''root.json'']\<rparr>, 3)"
    by code_simp
  have ex1: "?ex1 = [''root.json'', ''a.json'', ''b.json'']"
    by code_simp
  have ok1: "\<forall>m \<in> reachable scenario1 ?ex1 [''root.json''].
      m \<in> set ?ex1 \<and> endsWith m ''.json'' \<longrightarrow> parses scenario1 m"
    unfolding ex1 by (auto simp: parses_def lookup_def joins_to_directory_def scenario1_def endsWith_def)
  have b1: "\<forall>f \<in> set [''root.json'']. \<forall>g k.
      (f, g) \<in> edges scenario1 ?ex1 ^^ k \<longrightarrow> k \<le> 10"
    using resolve_depth [OF h1] by auto
  note t = depth_limit_is_ten [of loop_store "[''root.json'']" "''ifcomplete''" "''.tmp''"]
  note t1 = depth_limit_is_ten [of scenario1 "[''root.json'']" "''ifcomplete''" "''.tmp''"]
  from t ok p2 have a: "getMissingFilesForRootFiles loop_store [''root.json''] ''ifcomplete'' ''.tmp''
     = \<lparr>result = Inl TooDeepError, issued = [], store = loop_store\<rparr>"
    by blast
  from t ok p3 have "getMissingFilesForRootFiles loop_store [''root.json''] ''ifcomplete'' ''.tmp''
     = \<lparr>result = Inl TooDeepError, issued = [], store = loop_store\<rparr>"
    by blast
  from t1 ok1 b1 have c: "\<exists>r st. getMissingFilesRecursive scenario1 ?ex1
          [''root.json''] 0 0 = Inr (r, st)"
    by blast
  from t have e: "getMissingFilesForRootFiles (chain_store 11) [link 0] ''ifcomplete'' ''.tmp''
     = \<lparr>result = Inl TooDeepError, issued = [], store = chain_store 11\<rparr>"
    by blast
  from a cyc long c e show ?thesis
    by blast
qed

subsection \<open>Commit\<close>

text \<open>
  Claim C3, as amended. Let the policy be \<open>ifcomplete\<close> and the resolved missing-file list
  be empty, and let the root names be staged properly: they are pairwise different, their
  permanent names are file names (not empty, not \<open>.\<close> or \<open>..\<close>), are pairwise different,
  and none of them is a root name itself. Then the call returns the empty list. It starts one rename for each root, to the
  root name without its last \<open>length tempFileSuffix\<close> characters, and then one deletion
  for each name of the directory listing that is neither a permanent name nor among the
  names the resolution found reachable from the staged root names. Afterwards each
  permanent name holds what its staged root held; every other file that the resolution
  found reachable is as it was; and no other name is left in the store. A staged root
  whose name does not end in \<open>.json\<close> is a leaf for the resolution, so that what its text
  references does not count as reachable.
\<close>

theorem commit_renames_roots_and_prunes:
  assumes h: "getMissingFilesRecursive d (getExistingFiles d) roots 0 0 = Inr (r, st)"
    and m: "missingFiles r = []"
    and dr: "distinct roots"
    and pn: "\<forall>f \<in> set roots. \<not> joins_to_directory (permanentName f suf)
               \<and> permanentName f suf \<notin> set roots"
    and inj: "inj_on (\<lambda>f. permanentName f suf) (set roots)"
  shows "result (getMissingFilesForRootFiles d roots ''ifcomplete'' suf) = Inr []
    \<and> (\<exists>pruned. issued (getMissingFilesForRootFiles d roots ''ifcomplete'' suf)
          = map (\<lambda>f. Rename f (take (length f - length suf) f)) roots @ map Unlink pruned
        \<and> distinct pruned
        \<and> set pruned
            = {n \<in> set (readDirAsync d). n \<notin> reachable d (getExistingFiles d) roots
                 \<and> n \<notin> (\<lambda>f. permanentName f suf) ` set roots})
    \<and> (\<forall>f \<in> set roots. lookup (store (getMissingFilesForRootFiles d roots ''ifcomplete'' suf))
          (permanentName f suf) = lookup d f)
    \<and> (\<forall>n \<in> reachable d (getExistingFiles d) roots.
          n \<notin> set roots \<and> n \<notin> (\<lambda>f. permanentName f suf) ` set roots \<longrightarrow>
          lookup (store (getMissingFilesForRootFiles d roots ''ifcomplete'' suf)) n = lookup d n)
    \<and> (\<forall>n. n \<notin> (\<lambda>f. permanentName f suf) ` set roots
              \<and> (n \<in> set roots \<or> n \<notin> reachable d (getExistingFiles d) roots) \<longrightarrow>
          lookup (store (getMissingFilesForRootFiles d roots ''ifcomplete'' suf)) n = None)"
proof -
  let ?ex = "getExistingFiles d"
  let ?R = "reachable d ?ex roots"
  let ?g = "\<lambda>f. permanentName f suf"
  let ?P = "prune_list d r roots suf"
  let ?run = "getMissingFilesForRootFiles d roots ''ifcomplete'' suf"
  from resolve_sets [OF h] m have R: "set (referencedFiles r) = ?R" and sub: "?R \<subseteq> set ?ex"
    by auto
  have roots: "set roots \<subseteq> ?R"
    by (auto simp: reachable_def)
  from pn have pn': "\<forall>f \<in> set roots. ?g f \<notin> set roots" by simp
  have P: "set ?P = {n \<in> set (readDirAsync d). n \<notin> ?R \<and> n \<notin> ?g ` set roots}"
    using roots by (auto simp: prune_list_def set_renamed_set [OF pn'] R getExistingFiles_def)
  have dP: "distinct ?P"
    by (simp add: prune_list_def)
  have present: "\<forall>f \<in> set roots. lookup d f \<noteq> None \<and> \<not> joins_to_directory (?g f)
      \<and> ?g f \<notin> set roots"
    using roots sub pn by (auto simp: set_getExistingFiles)
  from rename_batch [OF dr present inj] obtain d1 where
    b: "run_batch (rename_list roots suf) d = (d1, None)"
    and n1: "\<forall>f \<in> set roots. lookup d1 (?g f) = lookup d f"
    and n2: "\<forall>f \<in> set roots. lookup d1 f = None"
    and n3: "\<forall>n. n \<notin> set roots \<and> n \<notin> ?g ` set roots \<longrightarrow> lookup d1 n = lookup d n"
    unfolding rename_list_def by blast
  have "\<forall>n \<in> set ?P. lookup d1 n \<noteq> None"
  proof
    fix n assume n: "n \<in> set ?P"
    with P roots have "n \<notin> set roots" "n \<notin> ?g ` set roots" "n \<in> set (readDirAsync d)"
      by auto
    with n3 show "lookup d1 n \<noteq> None"
      by (auto simp: dom_lookup [symmetric])
  qed
  from unlink_batch_ok [OF dP this] have ok: "snd (run_batch (map Unlink ?P) d1) = None" .
  from run_commit [OF h m, of suf] b ok
  have run: "?run = \<lparr>result = Inr [],
      issued = rename_list roots suf @ map Unlink ?P,
      store = fst (run_batch (map Unlink ?P) d1)\<rparr>"
    by simp
  have st: "lookup (store ?run) = (\<lambda>n. if n \<in> set ?P then None else lookup d1 n)"
    by (simp add: run lookup_unlink_batch)
  have s1: "\<forall>f \<in> set roots. lookup (store ?run) (?g f) = lookup d f"
    using n1 P by (auto simp: st)
  have s2: "\<forall>n \<in> ?R. n \<notin> set roots \<and> n \<notin> ?g ` set roots \<longrightarrow> lookup (store ?run) n = lookup d n"
    using n3 P by (auto simp: st)
  have s3: "\<forall>n. n \<notin> ?g ` set roots \<and> (n \<in> set roots \<or> n \<notin> ?R) \<longrightarrow> lookup (store ?run) n = None"
  proof (intro allI impI)
    fix n assume a: "n \<notin> ?g ` set roots \<and> (n \<in> set roots \<or> n \<notin> ?R)"
    show "lookup (store ?run) n = None"
    proof (cases "n \<in> set roots")
      case True
      with n2 show ?thesis by (simp add: st)
    next
      case False
      with a have nr: "n \<notin> ?R" by simp
      show ?thesis
      proof (cases "n \<in> set (readDirAsync d)")
        case True
        with nr a P have "n \<in> set ?P" by simp
        then show ?thesis by (simp add: st)
      next
        case False
        then have "lookup d n = None" by (auto simp: dom_lookup [symmetric])
        with n3 a \<open>n \<notin> set roots\<close> show ?thesis by (simp add: st)
      qed
    qed
  qed
  have "issued ?run = map (\<lambda>f. Rename f (take (length f - length suf) f)) roots @ map Unlink ?P"
    by (simp add: run rename_list_def permanentName_take)
  with P dP have "\<exists>pruned. issued ?run
          = map (\<lambda>f. Rename f (take (length f - length suf) f)) roots @ map Unlink pruned
        \<and> distinct pruned
        \<and> set pruned = {n \<in> set (readDirAsync d). n \<notin> ?R \<and> n \<notin> ?g ` set roots}"
    by blast
  with run s1 s2 s3 show ?thesis
    by simp
qed

theorem commit_renames_roots_and_prunes_witness:
  "getMissingFilesForRootFiles staged_store [''root.json.tmp.json''] ''ifcomplete'' ''.tmp.json''
     = \<lparr>result = Inr [],
        issued = [Rename ''root.json.tmp.json'' ''root.json'', Unlink ''old.json'',
                  Unlink ''stale''],
        store = [(''root.json'', Json \<lparr>refs = Some [(0, ''a.json''), (1, ''blob1'')]\<rparr>),
                 (''a.json'', Json \<lparr>refs = Some [(0, ''blob1'')]\<rparr>),
                 (''blob1'', Malformed ''binary'')]\<rparr>
   \<and> lookup (store (getMissingFilesForRootFiles staged_store [''root.json.tmp.json'']
         ''ifcomplete'' ''.tmp.json'')) ''root.json''
       = lookup staged_store ''root.json.tmp.json''"
proof -
  have h: "getMissingFilesRecursive staged_store (getExistingFiles staged_store)
      [''root.json.tmp.json''] 0 0
    = Inr (\<lparr>missingFiles = [],
             referencedFiles = [''blob1'', ''a.json'', ''blob1'', ''root.json.tmp.json'']\<rparr>, 2)"
    by code_simp
  have m: "missingFiles \<lparr>missingFiles = [],
      referencedFiles = [''blob1'', ''a.json'', ''blob1'', ''root.json.tmp.json'']\<rparr> = []"
    by simp
  have dr: "distinct [''root.json.tmp.json'']"
    by simp
  have pn: "\<forall>f \<in> set [''root.json.tmp.json''].
      \<not> joins_to_directory (permanentName f ''.tmp.json'')
      \<and> permanentName f ''.tmp.json'' \<notin> set [''root.json.tmp.json'']"
    by (simp add: permanentName_take joins_to_directory_def)
  have inj: "inj_on (\<lambda>f. permanentName f ''.tmp.json'') (set [''root.json.tmp.json''])"
    by simp
  have v: "getMissingFilesForRootFiles staged_store [''root.json.tmp.json'']
      ''ifcomplete'' ''.tmp.json''
     = \<lparr>result = Inr [],
        issued = [Rename ''root.json.tmp.json'' ''root.json'', Unlink ''old.json'',
                  Unlink ''stale''],
        store = [(''root.json'', Json \<lparr>refs = Some [(0, ''a.json''), (1, ''blob1'')]\<rparr>),
                 (''a.json'', Json \<lparr>refs = Some [(0, ''blob1'')]\<rparr>),
                 (''blob1'', Malformed ''binary'')]\<rparr>"
    by code_simp
  have p: "permanentName ''root.json.tmp.json'' ''.tmp.json'' = ''root.json''"
    by (simp add: permanentName_take)
  from commit_renames_roots_and_prunes [OF h m dr pn inj] v p show ?thesis
    by simp
qed

text \<open>
  The claim as it stands fails. In the second scenario of the specification the staged
  root \<open>root.json.tmp\<close> does not end in \<open>.json\<close>, so it is a leaf: the commit renames it
  and deletes every other file, also those that \<open>root.json\<close> references, and a
  verification of the committed root then reports them missing. With a root name given
  twice the second rename fails and nothing is pruned.
\<close>

theorem commit_may_delete_what_the_new_root_references:
  "getMissingFilesForRootFiles scenario2 [''root.json.tmp''] ''ifcomplete'' ''.tmp''
     = \<lparr>result = Inr [],
        issued = [Rename ''root.json.tmp'' ''root.json'', Unlink ''a.json'', Unlink ''b.json'',
                  Unlink ''blob1''],
        store = [(''root.json'', Json \<lparr>refs = Some [(0, ''a.json''), (1, ''b.json'')]\<rparr>)]\<rparr>
   \<and> result (getMissingFilesForRootFiles
         [(''root.json'', Json \<lparr>refs = Some [(0, ''a.json''), (1, ''b.json'')]\<rparr>)]
         [''root.json''] ''verify'' ''.tmp'')
       = Inr [''a.json'', ''b.json'']
   \<and> result (getMissingFilesForRootFiles staged_store
         [''root.json.tmp.json'', ''root.json.tmp.json''] ''ifcomplete'' ''.tmp.json'')
       = Inl (IOError RenameCall ''root.json.tmp.json'')
   \<and> lookup (store (getMissingFilesForRootFiles staged_store
         [''root.json.tmp.json'', ''root.json.tmp.json''] ''ifcomplete'' ''.tmp.json'')) ''stale''
       = Some (Malformed ''binary'')"
  by code_simp

subsection \<open>Rollback\<close>



subsection \<open>Verification only\<close>

text \<open>
  Claim C5. With a save policy other than \<open>ifcomplete\<close> and \<open>no\<close> the call starts no file
  system operation and leaves the store as it was, and what it returns is what the
  resolution gave: its missing-file list, or its error. Under every policy a list that the
  call returns is the missing-file list of the resolution; the only thing a policy can put
  in its place is the failure of a rename or a deletion.
\<close>

theorem verify_only_is_pure:
  "(policy \<noteq> ''ifcomplete'' \<and> policy \<noteq> ''no'' \<longrightarrow>
      issued (getMissingFilesForRootFiles d roots policy suf) = []
      \<and> store (getMissingFilesForRootFiles d roots policy suf) = d
      \<and> result (getMissingFilesForRootFiles d roots policy suf)
          = map_sum id (\<lambda>x. missingFiles (fst x))
              (getMissingFilesRecursive d (getExistingFiles d) roots 0 0))
   \<and> (result (getMissingFilesForRootFiles d roots anyPolicy suf) = Inr ms \<longrightarrow>
        (\<exists>r st. getMissingFilesRecursive d (getExistingFiles d) roots 0 0 = Inr (r, st)
           \<and> ms = missingFiles r))
   \<and> (getMissingFilesRecursive d (getExistingFiles d) roots 0 0 = Inr (r, st) \<longrightarrow>
        result (getMissingFilesForRootFiles d roots anyPolicy suf) = Inr (missingFiles r)
        \<or> (\<exists>c f. result (getMissingFilesForRootFiles d roots anyPolicy suf)
               = Inl (IOError c f)))"
proof (intro conjI impI)
  assume p: "policy \<noteq> ''ifcomplete'' \<and> policy \<noteq> ''no''"
  show "issued (getMissingFilesForRootFiles d roots policy suf) = []"
    using p by (cases "getMissingFilesRecursive d (getExistingFiles d) roots 0 0")
      (auto simp: run_error run_verify)
  show "store (getMissingFilesForRootFiles d roots policy suf) = d"
    using p by (cases "getMissingFilesRecursive d (getExistingFiles d) roots 0 0")
      (auto simp: run_error run_verify)
  show "result (getMissingFilesForRootFiles d roots policy suf)
          = map_sum id (\<lambda>x. missingFiles (fst x))
              (getMissingFilesRecursive d (getExistingFiles d) roots 0 0)"
    using p by (cases "getMissingFilesRecursive d (getExistingFiles d) roots 0 0")
      (auto simp: run_error run_verify)
next
  assume "result (getMissingFilesForRootFiles d roots anyPolicy suf) = Inr ms"
  then show "\<exists>r st. getMissingFilesRecursive d (getExistingFiles d) roots 0 0 = Inr (r, st)
           \<and> ms = missingFiles r"
    by (rule run_result_Inr)
next
  assume "getMissingFilesRecursive d (getExistingFiles d) roots 0 0 = Inr (r, st)"
  then show "result (getMissingFilesForRootFiles d roots anyPolicy suf) = Inr (missingFiles r)
        \<or> (\<exists>c f. result (getMissingFilesForRootFiles d roots anyPolicy suf)
               = Inl (IOError c f))"
    by (rule run_result_cases)
qed

theorem verify_only_is_pure_witness:
  "''verify'' \<noteq> ''ifcomplete'' \<and> ''verify'' \<noteq> ''no''
   \<and> getMissingFilesForRootFiles scenario1 [''root.json''] ''verify'' ''.tmp''
       = \<lparr>result = Inr [''blob1''], issued = [], store = scenario1\<rparr>
   \<and> result (getMissingFilesForRootFiles scenario1 [''root.json''] ''no'' ''.tmp'')
       = Inr [''blob1'']"
proof -
  have h: "getMissingFilesRecursive scenario1 (getExistingFiles scenario1) [''root.json''] 0 0
      = Inr (\<lparr>missingFiles = [''blob1''],
               referencedFiles = [''blob1'', ''a.json'', ''b.json'', ''root.json'']\<rparr>, 3)"
    by code_simp
  have n: "result (getMissingFilesForRootFiles scenario1 [''root.json''] ''no'' ''.tmp'')
       = Inr [''blob1'']"
    by code_simp
  from verify_only_is_pure [of "''verify''" scenario1 "[''root.json'']" "''.tmp''" "''no''"
      "[''blob1'']"
      "\<lparr>missingFiles = [''blob1''],
        referencedFiles = [''blob1'', ''a.json'', ''b.json'', ''root.json'']\<rparr>" 3] h n
  show ?thesis
    by (cases "getMissingFilesForRootFiles scenario1 [''root.json''] ''verify'' ''.tmp''") simp
qed

subsection \<open>Unparseable manifests\<close>

text \<open>
  Claim C6, as amended. When a manifest that cannot be parsed is reachable from a root
  along at most 10 references, the call throws the \<open>SyntaxError\<close> that \<open>JSON.parse\<close> raised
  for some reachable manifest: it returns no list, has started no file system operation,
  and leaves the store as it was. The error is of another kind than the too-deep error.
  It carries the message of the parser, which depends on the text alone; it does not
  carry the file name.
\<close>

theorem malformed_manifest_aborts:
  assumes "f \<in> set roots" and "(f, m) \<in> edges d (getExistingFiles d) ^^ k" and "k \<le> 10"
    and "lookup d m = Some (Malformed text)" and "endsWith m ''.json''"
  shows "\<exists>msg m'. getMissingFilesForRootFiles d roots policy suf
             = \<lparr>result = Inl (SyntaxError msg), issued = [], store = d\<rparr>
           \<and> m' \<in> reachable d (getExistingFiles d) roots \<and> endsWith m' ''.json''
           \<and> lookup d m' = Some (Malformed msg)
           \<and> SyntaxError msg \<noteq> TooDeepError"
proof -
  let ?ex = "getExistingFiles d"
  from assms(4) have mex: "m \<in> set ?ex" and np: "\<not> parses d m"
    by (auto simp: set_getExistingFiles parses_def)
  from assms(3) have "0 + k \<le> 10" by simp
  from resolve_malformed [OF assms(1,2) this mex assms(5) np, of 0]
  obtain e where e: "getMissingFilesRecursive d ?ex roots 0 0 = Inl e" "e \<noteq> TooDeepError"
    by blast
  from resolve_error [OF e(1)] e(2) obtain m' where m': "m' \<in> reachable d ?ex roots"
    "m' \<in> set ?ex" "endsWith m' ''.json''" "readFileWithRefs d m' = Inl e"
    by blast
  from m'(2) have "lookup d m' \<noteq> None"
    by (auto simp: set_getExistingFiles)
  with m'(4) obtain msg where msg: "lookup d m' = Some (Malformed msg)" "e = SyntaxError msg"
    by (auto simp: readFileWithRefs_Inl)
  from run_error [OF e(1), of policy suf] m' msg show ?thesis
    by auto
qed

theorem malformed_manifest_aborts_witness:
  "getMissingFilesForRootFiles
       (store_ab (Json \<lparr>refs = Some [(0, ''b.json'')]\<rparr>) (Malformed ''bad'')) [''a.json'']
       ''ifcomplete'' ''.tmp''
     = \<lparr>result = Inl (SyntaxError ''bad''), issued = [],
        store = store_ab (Json \<lparr>refs = Some [(0, ''b.json'')]\<rparr>) (Malformed ''bad'')\<rparr>"
proof -
  let ?d = "store_ab (Json \<lparr>refs = Some [(0, ''b.json'')]\<rparr>) (Malformed ''bad'')"
  have ex: "getExistingFiles ?d = [''a.json'', ''b.json'']"
    by code_simp
  have "manifest_refs ?d (getExistingFiles ?d) ''a.json'' = [''b.json'']"
    unfolding ex
    by (simp add: manifest_refs_def lookup_def joins_to_directory_def store_ab_def endsWith_def
        referencedFileNames_def Object_values_def)
  then have "(''a.json'', ''b.json'') \<in> edges ?d (getExistingFiles ?d)"
    by (simp add: edges_def)
  then have p: "(''a.json'', ''b.json'') \<in> edges ?d (getExistingFiles ?d) ^^ 1"
    by simp
  have r: "''a.json'' \<in> set [''a.json'']" and k: "(1::nat) \<le> 10"
    by simp_all
  have l: "lookup ?d ''b.json'' = Some (Malformed ''bad'')"
    by (simp add: lookup_def joins_to_directory_def store_ab_def)
  have s: "endsWith ''b.json'' ''.json''"
    by (simp add: endsWith_def)
  have v: "result (getMissingFilesForRootFiles ?d [''a.json''] ''ifcomplete'' ''.tmp'')
      = Inl (SyntaxError ''bad'')"
    by code_simp
  from malformed_manifest_aborts [OF r p k l s, of "''ifcomplete''" "''.tmp''"] v
  show ?thesis
    by auto
qed

text \<open>
  The claim as it stands fails: the error does not identify the offending file. Two
  stores whose unparseable manifest is a different file, with the same text, make the call
  throw the same error.
\<close>

theorem parse_error_does_not_name_the_file:
  "result (getMissingFilesForRootFiles (store_ab (Malformed ''bad'') (Json \<lparr>refs = None\<rparr>))
      [''a.json'', ''b.json''] ''verify'' ''.tmp'') = Inl (SyntaxError ''bad'')
   \<and> result (getMissingFilesForRootFiles (store_ab (Json \<lparr>refs = None\<rparr>) (Malformed ''bad''))
      [''a.json'', ''b.json''] ''verify'' ''.tmp'') = Inl (SyntaxError ''bad'')
   \<and> \<not> parses (store_ab (Malformed ''bad'') (Json \<lparr>refs = None\<rparr>)) ''a.json''
   \<and> parses (store_ab (Malformed ''bad'') (Json \<lparr>refs = None\<rparr>)) ''b.json''
   \<and> parses (store_ab (Json \<lparr>refs = None\<rparr>) (Malformed ''bad'')) ''a.json''
   \<and> \<not> parses (store_ab (Json \<lparr>refs = None\<rparr>) (Malformed ''bad'')) ''b.json''"
  by code_simp

subsection \<open>The order of the merge\<close>

text \<open>
  Claim C7. Whenever a level returns, its result is the result of the child level (the
  empty result when no name is referenced) followed by what the level adds itself: its own
  missing names after the child's missing names, and its own input names after the child's
  referenced names. Over the whole traversal the levels therefore appear deepest first.
\<close>

theorem merge_is_child_before_parent:
  assumes "getMissingFilesRecursive d ex names l st = Inr (r, st')"
  shows "(\<exists>next child st1.
            read_chunks d (chunkArrayInGroups (fst (foldl (classify ex) ([], []) names)) 50)
              ([], st) = Inr (next, st1)
            \<and> (if next \<noteq> []
               then getMissingFilesRecursive d ex next (l + 1) st1 = Inr (child, st')
               else child = \<lparr>missingFiles = [], referencedFiles = []\<rparr> \<and> st' = st1)
            \<and> missingFiles r = missingFiles child @ snd (foldl (classify ex) ([], []) names)
            \<and> referencedFiles r = referencedFiles child @ names)
    \<and> missingFiles r
        = concat (rev (map (\<lambda>ns. snd (foldl (classify ex) ([], []) ns))
                         (level_inputs d ex names (11 - l))))
    \<and> referencedFiles r = concat (rev (level_inputs d ex names (11 - l)))"
  using resolve_step [OF assms] resolve_levels [OF assms]
  by (simp add: classify_levels)

theorem merge_is_child_before_parent_witness:
  "getMissingFilesRecursive store_shared (getExistingFiles store_shared)
       [''top'', ''root.json''] 0 0
     = Inr (\<lparr>missingFiles = [''x''] @ [''x''] @ [''top''],
             referencedFiles = [''x''] @ [''a.json'', ''x''] @ [''top'', ''root.json'']\<rparr>, 2)
   \<and> level_inputs store_shared (getExistingFiles store_shared) [''top'', ''root.json''] 11
       = [[''top'', ''root.json''], [''a.json'', ''x''], [''x'']]"
proof -
  have h: "getMissingFilesRecursive store_shared (getExistingFiles store_shared)
       [''top'', ''root.json''] 0 0
     = Inr (\<lparr>missingFiles = [''x'', ''x'', ''top''],
             referencedFiles = [''x'', ''a.json'', ''x'', ''top'', ''root.json'']\<rparr>, 2)"
    by code_simp
  have i: "level_inputs store_shared (getExistingFiles store_shared) [''top'', ''root.json''] 11
       = [[''top'', ''root.json''], [''a.json'', ''x''], [''x'']]"
    by code_simp
  from merge_is_child_before_parent [OF h] h i show ?thesis
    by simp
qed

subsection \<open>The partition of the input names\<close>

text \<open>
  Claim C8. Every level of the traversal, whatever its input names and its depth, does
  the following. It throws when the depth exceeds 10. Otherwise it reads and parses the
  files of \<open>level_manifests\<close>, which are, once each, the input names that are in the
  snapshot and end in \<open>.json\<close>, and no other file; the names that these files reference
  are the input of the next level. It appends \<open>level_missing\<close>, which holds, once each, the
  input names that are not in the snapshot, to the missing-file list of the next level,
  and these names are not expanded. The input names that are in the snapshot without the
  extension are in neither set. The two sets are the ones that the first loop builds. The
  counter of the files read grows by the size of \<open>level_manifests\<close> at each level. What a
  file that is not a manifest of the snapshot holds, or whether it still is in the store,
  has no influence on the traversal, and neither has the choice of the rejection that is
  reported on what the traversal returns.
\<close>

theorem names_partitioned_by_snapshot:
  "getMissingFilesRecursive d ex names l st =
     (if 10 < l then Inl TooDeepError
      else case Promise_all (map (readFileWithRefs d) (level_manifests ex names)) of
        Inl e \<Rightarrow> Inl e
      | Inr contents \<Rightarrow>
          (case (if new_Set (concat (map referencedFileNames contents)) \<noteq> []
                 then getMissingFilesRecursive d ex
                        (new_Set (concat (map referencedFileNames contents))) (l + 1)
                        (st + length (level_manifests ex names))
                 else Inr (\<lparr>missingFiles = [], referencedFiles = []\<rparr>,
                           st + length (level_manifests ex names))) of
             Inl e \<Rightarrow> Inl e
           | Inr (child, st2) \<Rightarrow>
               Inr (\<lparr>missingFiles = missingFiles child @ level_missing ex names,
                     referencedFiles = referencedFiles child @ names\<rparr>, st2)))
   \<and> foldl (classify ex) ([], []) names = (level_manifests ex names, level_missing ex names)
   \<and> distinct (level_manifests ex names) \<and> distinct (level_missing ex names)
   \<and> set (level_manifests ex names) = {f \<in> set names. f \<in> set ex \<and> endsWith f ''.json''}
   \<and> set (level_missing ex names) = {f \<in> set names. f \<notin> set ex}
   \<and> set names = set (level_manifests ex names) \<union> set (level_missing ex names)
        \<union> {f \<in> set names. f \<in> set ex \<and> \<not> endsWith f ''.json''}
   \<and> (getMissingFilesRecursive d ex names l st = Inr (r, st') \<longrightarrow>
        st' = st + sum_list (map (\<lambda>ns. length (level_manifests ex ns))
                               (level_inputs d ex names (11 - l)))
        \<and> missingFiles r
            = concat (rev (map (level_missing ex) (level_inputs d ex names (11 - l)))))
   \<and> ((\<forall>f \<in> set ex. endsWith f ''.json'' \<longrightarrow> lookup d f = lookup d' f) \<longrightarrow>
        getMissingFilesRecursive d ex names l st = getMissingFilesRecursive d' ex names l st)
   \<and> returned (getMissingFilesRecursive_in rejection d ex names l st)
       = returned (getMissingFilesRecursive d ex names l st)"
proof -
  have level: "getMissingFilesRecursive d ex names l st =
     (if 10 < l then Inl TooDeepError
      else case Promise_all (map (readFileWithRefs d) (level_manifests ex names)) of
        Inl e \<Rightarrow> Inl e
      | Inr contents \<Rightarrow>
          (case (if new_Set (concat (map referencedFileNames contents)) \<noteq> []
                 then getMissingFilesRecursive d ex
                        (new_Set (concat (map referencedFileNames contents))) (l + 1)
                        (st + length (level_manifests ex names))
                 else Inr (\<lparr>missingFiles = [], referencedFiles = []\<rparr>,
                           st + length (level_manifests ex names))) of
             Inl e \<Rightarrow> Inl e
           | Inr (child, st2) \<Rightarrow>
               Inr (\<lparr>missingFiles = missingFiles child @ level_missing ex names,
                     referencedFiles = referencedFiles child @ names\<rparr>, st2)))"
    by (subst getMissingFilesRecursive_level) (simp add: level_refs_def split: sum.splits)
  have dw: "distinct (level_manifests ex names)" and dm: "distinct (level_missing ex names)"
    by (simp_all add: level_manifests_def level_missing_def)
  have cover: "set names = set (level_manifests ex names) \<union> set (level_missing ex names)
        \<union> {f \<in> set names. f \<in> set ex \<and> \<not> endsWith f ''.json''}"
    by (auto simp: set_level_manifests set_level_missing)
  have lv: "getMissingFilesRecursive d ex names l st = Inr (r, st') \<longrightarrow>
        st' = st + sum_list (map (\<lambda>ns. length (level_manifests ex ns))
                               (level_inputs d ex names (11 - l)))
        \<and> missingFiles r
            = concat (rev (map (level_missing ex) (level_inputs d ex names (11 - l))))"
    using resolve_levels [of d ex names l st r st'] by blast
  have cong: "(\<forall>f \<in> set ex. endsWith f ''.json'' \<longrightarrow> lookup d f = lookup d' f) \<longrightarrow>
        getMissingFilesRecursive d ex names l st = getMissingFilesRecursive d' ex names l st"
    using resolve_cong [of ex d d' names l st] by blast
  show ?thesis
    apply (rule conjI [OF level])
    apply (intro conjI)
            apply (rule classify_levels)
           apply (rule dw)
          apply (rule dm)
         apply (rule set_level_manifests)
        apply (rule set_level_missing)
       apply (rule cover)
      apply (rule lv)
     apply (rule cong)
    apply (rule returned_resolve_in)
    done
qed

theorem names_partitioned_by_snapshot_witness:
  "getMissingFilesRecursive (store_blob ''one'') [''root.json'', ''blob1'', ''old'']
        [''gone'', ''root.json'', ''blob1'', ''gone'', ''root.json''] 0 0
     = Inr (\<lparr>missingFiles = [''gone'', ''gone''],
             referencedFiles = [''blob1'', ''gone'',
                                ''gone'', ''root.json'', ''blob1'', ''gone'', ''root.json'']\<rparr>, 1)
   \<and> level_manifests [''root.json'', ''blob1'', ''old'']
        [''gone'', ''root.json'', ''blob1'', ''gone'', ''root.json''] = [''root.json'']
   \<and> level_missing [''root.json'', ''blob1'', ''old'']
        [''gone'', ''root.json'', ''blob1'', ''gone'', ''root.json''] = [''gone'']
   \<and> level_inputs (store_blob ''one'') [''root.json'', ''blob1'', ''old'']
        [''gone'', ''root.json'', ''blob1'', ''gone'', ''root.json''] 11
       = [[''gone'', ''root.json'', ''blob1'', ''gone'', ''root.json''], [''blob1'', ''gone'']]
   \<and> concat (rev (map (level_missing [''root.json'', ''blob1'', ''old''])
        [[''gone'', ''root.json'', ''blob1'', ''gone'', ''root.json''], [''blob1'', ''gone'']]))
       = [''gone'', ''gone'']
   \<and> getMissingFilesRecursive
        [(''root.json'', Json \<lparr>refs = Some [(0, ''blob1''), (1, ''gone'')]\<rparr>)]
        [''root.json'', ''blob1'', ''old'']
        [''gone'', ''root.json'', ''blob1'', ''gone'', ''root.json''] 0 0
     = getMissingFilesRecursive (store_blob ''one'') [''root.json'', ''blob1'', ''old'']
        [''gone'', ''root.json'', ''blob1'', ''gone'', ''root.json''] 0 0"
proof -
  let ?ex = "[''root.json'', ''blob1'', ''old'']"
  let ?names = "[''gone'', ''root.json'', ''blob1'', ''gone'', ''root.json'']"
  let ?r = "\<lparr>missingFiles = [''gone'', ''gone''],
             referencedFiles = [''blob1'', ''gone'',
                                ''gone'', ''root.json'', ''blob1'', ''gone'', ''root.json'']\<rparr>"
  let ?d' = "[(''root.json'', Json \<lparr>refs = Some [(0, ''blob1''), (1, ''gone'')]\<rparr>)]"
  have h: "getMissingFilesRecursive (store_blob ''one'') ?ex ?names 0 0 = Inr (?r, 1)"
    by code_simp
  have c: "foldl (classify ?ex) ([], []) ?names = ([''root.json''], [''gone''])"
    by code_simp
  have i: "level_inputs (store_blob ''one'') ?ex ?names 11 = [?names, [''blob1'', ''gone'']]"
    by code_simp
  have e: "\<forall>f \<in> set ?ex. endsWith f ''.json'' \<longrightarrow>
      lookup (store_blob ''one'') f = lookup ?d' f"
    by (simp add: endsWith_def lookup_def joins_to_directory_def store_blob_def)
  note t = names_partitioned_by_snapshot [of "store_blob ''one''" ?ex ?names 0 0 ?r 1 ?d' hd]
  from t have p: "foldl (classify ?ex) ([], []) ?names
      = (level_manifests ?ex ?names, level_missing ?ex ?names)"
    by blast
  from t have "(\<forall>f \<in> set ?ex. endsWith f ''.json'' \<longrightarrow>
        lookup (store_blob ''one'') f = lookup ?d' f) \<longrightarrow>
      getMissingFilesRecursive (store_blob ''one'') ?ex ?names 0 0
        = getMissingFilesRecursive ?d' ?ex ?names 0 0"
    by blast
  with e have q: "getMissingFilesRecursive ?d' ?ex ?names 0 0
      = getMissingFilesRecursive (store_blob ''one'') ?ex ?names 0 0"
    by simp
  from t have "getMissingFilesRecursive (store_blob ''one'') ?ex ?names 0 0 = Inr (?r, 1) \<longrightarrow>
      missingFiles ?r = concat (rev (map (level_missing ?ex)
        (level_inputs (store_blob ''one'') ?ex ?names (11 - 0))))"
    by blast
  with h i have m: "concat (rev (map (level_missing ?ex) [?names, [''blob1'', ''gone'']]))
      = [''gone'', ''gone'']"
    by simp
  from p c have "level_manifests ?ex ?names = [''root.json'']"
    and "level_missing ?ex ?names = [''gone'']"
    by simp_all
  with h i q m show ?thesis
    by simp
qed

subsection \<open>Permanent names\<close>

text \<open>
  Claim C9. During a commit the rename started for each root takes the root name without
  its last \<open>length tempFileSuffix\<close> characters as the new name, whether or not the name
  ends with the suffix: for a name at least as long as the suffix exactly that many
  characters are cut off, and for a shorter name the new name is empty.
\<close>

theorem permanent_name_positional:
  assumes "getMissingFilesRecursive d (getExistingFiles d) roots 0 0 = Inr (r, st)"
    and "missingFiles r = []"
  shows "take (length roots) (issued (getMissingFilesForRootFiles d roots ''ifcomplete'' suf))
           = map (\<lambda>file. Rename file (take (length file - length suf) file)) roots
         \<and> (length suf \<le> length f \<longrightarrow>
                permanentName f suf @ drop (length f - length suf) f = f
                \<and> length (permanentName f suf) = length f - length suf)
         \<and> (length f < length suf \<longrightarrow> permanentName f suf = [])"
  using issued_commit [OF assms, of suf] by (simp add: permanentName_take)

theorem permanent_name_positional_witness:
  "take 2 (issued (getMissingFilesForRootFiles
       [(''data.bin'', Malformed ''x''), (''ab'', Malformed ''y'')] [''data.bin'', ''ab'']
       ''ifcomplete'' ''.tmp''))
     = [Rename ''data.bin'' ''data'', Rename ''ab'' []]
   \<and> \<not> endsWith ''data.bin'' ''.tmp''
   \<and> permanentName ''data.bin'' ''.tmp'' @ ''.bin'' = ''data.bin''
   \<and> permanentName ''ab'' ''.tmp'' = []"
proof -
  let ?d = "[(''data.bin'', Malformed ''x''), (''ab'', Malformed ''y'')]"
  have h: "getMissingFilesRecursive ?d (getExistingFiles ?d) [''data.bin'', ''ab''] 0 0
             = Inr (\<lparr>missingFiles = [], referencedFiles = [''data.bin'', ''ab'']\<rparr>, 0)"
    by code_simp
  have m: "missingFiles \<lparr>missingFiles = [], referencedFiles = [''data.bin'', ''ab'']\<rparr> = []"
    by simp
  have e: "\<not> endsWith ''data.bin'' ''.tmp''"
    by (simp add: endsWith_def)
  from permanent_name_positional [OF h m, of "''.tmp''" "''data.bin''"]
    permanent_name_positional [OF h m, of "''.tmp''" "''ab''"] e
  show ?thesis
    by (simp add: numeral_2_eq_2)
qed

subsection \<open>Determinism\<close>

text \<open>
  Claim C10, as amended. Two calls see the same directory listing and the same text in
  every manifest, and are given the same root names, none with a path separator, the
  same policy and the same suffix; under the policy \<open>ifcomplete\<close> the root names are
  pairwise different. Then, whichever rejection is reported for a chunk of reads and in
  whatever order the operations of a batch take effect in either call, both calls return
  the same list in the same order or both throw, and both start the same renames and
  deletions. What the other files hold does not matter. The error that is thrown and the
  store that is left may differ.
\<close>

theorem same_inputs_same_outcome:
  assumes "readDirAsync d = readDirAsync d'"
    and "\<forall>f. endsWith f ''.json'' \<longrightarrow> lookup d f = lookup d' f"
    and "\<forall>f \<in> set roots. no_separator f"
    and "policy = ''ifcomplete'' \<longrightarrow> distinct roots"
    and "completion_order completion" and "completion_order completion'"
  shows "returned (result (getMissingFilesForRootFiles_in rejection completion
                             d roots policy suf))
           = returned (result (getMissingFilesForRootFiles_in rejection' completion'
                                 d' roots policy suf))
    \<and> issued (getMissingFilesForRootFiles_in rejection completion d roots policy suf)
           = issued (getMissingFilesForRootFiles_in rejection' completion' d' roots policy suf)"
proof -
  let ?run = "getMissingFilesForRootFiles_in rejection completion d roots policy suf"
  let ?run' = "getMissingFilesForRootFiles_in rejection' completion' d' roots policy suf"
  from assms(1) have ex: "getExistingFiles d' = getExistingFiles d"
    by (simp add: getExistingFiles_def)
  from assms(1) have dm: "dom (lookup d') = dom (lookup d)"
    by (simp add: dom_lookup)
  from assms(2) have rc: "getMissingFilesRecursive d' (getExistingFiles d) roots 0 0
      = getMissingFilesRecursive d (getExistingFiles d) roots 0 0"
    using resolve_cong [of "getExistingFiles d" d d' roots 0 0] by simp
  show ?thesis
  proof (cases "getMissingFilesRecursive d (getExistingFiles d) roots 0 0")
    case (Inl e)
    with returned_resolve_in [of rejection d "getExistingFiles d" roots 0 0]
    obtain e1 where e1: "getMissingFilesRecursive_in rejection d (getExistingFiles d) roots 0 0
        = Inl e1"
      by (auto simp: returned_eq_None)
    from Inl rc ex returned_resolve_in [of rejection' d' "getExistingFiles d'" roots 0 0]
    obtain e2 where e2: "getMissingFilesRecursive_in rejection' d' (getExistingFiles d') roots 0 0
        = Inl e2"
      by (auto simp: returned_eq_None)
    from run_in_error [OF e1] run_in_error [OF e2] show ?thesis by simp
  next
    case (Inr x)
    obtain r st where x: "x = (r, st)" by (cases x)
    from Inr x have h: "getMissingFilesRecursive_in rejection d (getExistingFiles d) roots 0 0
        = Inr (r, st)"
      by (simp add: resolve_in_Inr)
    from Inr x rc ex
    have h': "getMissingFilesRecursive_in rejection' d' (getExistingFiles d') roots 0 0
        = Inr (r, st)"
      by (simp add: resolve_in_Inr)
    consider (verify) "policy \<noteq> ''ifcomplete''" "policy \<noteq> ''no''"
      | (rollback) "policy = ''no'' \<or> policy = ''ifcomplete'' \<and> missingFiles r \<noteq> []"
      | (commit) "policy = ''ifcomplete''" "missingFiles r = []"
      by blast
    then show ?thesis
    proof cases
      case verify
      from run_in_verify [OF h verify] run_in_verify [OF h' verify] show ?thesis by simp
    next
      case rollback
      have "(\<forall>f \<in> set roots. lookup d' f \<noteq> None) \<longleftrightarrow> (\<forall>f \<in> set roots. lookup d f \<noteq> None)"
        using dm by (metis domIff)
      with rollback_outcome(1,3) [OF h rollback assms(5), of suf]
        rollback_outcome(1,3) [OF h' rollback assms(6), of suf]
      show ?thesis by simp
    next
      case commit
      from commit(1) assms(4) have dr: "distinct roots" by simp
      have pl: "prune_list d' r roots suf = prune_list d r roots suf"
        by (simp add: prune_list_def ex)
      from commit_outcome [OF h commit(2) dr assms(5), of suf]
        commit_outcome [OF h' commit(2) dr assms(6), of suf] pl commit(1)
      show ?thesis by (simp split: if_splits)
    qed
  qed
qed

theorem same_inputs_same_outcome_witness:
  "twice_staged ''one'' \<noteq> twice_staged ''other''
   \<and> returned (result (getMissingFilesForRootFiles_in hd id (twice_staged ''one'')
        [''a.t'', ''a.t.t''] ''ifcomplete'' ''.t'')) = Some []
   \<and> returned (result (getMissingFilesForRootFiles_in last rev (twice_staged ''other'')
        [''a.t'', ''a.t.t''] ''ifcomplete'' ''.t'')) = Some []
   \<and> issued (getMissingFilesForRootFiles_in last rev (twice_staged ''other'')
        [''a.t'', ''a.t.t''] ''ifcomplete'' ''.t'')
       = [Rename ''a.t'' ''a'', Rename ''a.t.t'' ''a.t'', Unlink ''stale'']"
proof -
  have l: "readDirAsync (twice_staged ''one'') = readDirAsync (twice_staged ''other'')"
    by (simp add: readDirAsync_def joins_to_directory_def twice_staged_def)
  have m: "\<forall>f. endsWith f ''.json'' \<longrightarrow>
      lookup (twice_staged ''one'') f = lookup (twice_staged ''other'') f"
    by (simp add: lookup_def joins_to_directory_def twice_staged_def endsWith_def)
  have s: "\<forall>f \<in> set [''a.t'', ''a.t.t'']. no_separator f"
    by (simp add: no_separator_def)
  have p: "''ifcomplete'' = ''ifcomplete'' \<longrightarrow> distinct [''a.t'', ''a.t.t'']"
    by simp
  note c = completion_order_id completion_order_rev
  have r: "getMissingFilesForRootFiles_in hd id (twice_staged ''one'')
        [''a.t'', ''a.t.t''] ''ifcomplete'' ''.t''
      = \<lparr>result = Inr [],
         issued = [Rename ''a.t'' ''a'', Rename ''a.t.t'' ''a.t'', Unlink ''stale''],
         store = [(''a.t'', Malformed ''two''), (''a'', Malformed ''one'')]\<rparr>"
    by code_simp
  have n: "twice_staged ''one'' \<noteq> twice_staged ''other''"
    by (simp add: twice_staged_def)
  from same_inputs_same_outcome [OF l m s p c, of hd "''.t''" last] r n
  show ?thesis by simp
qed

text \<open>
  The claim as it stands fails when a root name is listed twice and another root is
  renamed to it: \<open>a.t\<close> is a root twice, and the root \<open>a.t.t\<close> becomes \<open>a.t\<close>. When the
  three renames take effect in the order in which they were started, the second one finds
  no \<open>a.t\<close>, the call throws and starts no deletion. When the rename of \<open>a.t.t\<close> takes
  effect between the other two, all three succeed, and the call deletes \<open>stale\<close> and
  returns the empty list.
\<close>

theorem completion_order_decides_the_commit:
  "getMissingFilesForRootFiles_in hd id (twice_staged ''one'')
       [''a.t'', ''a.t'', ''a.t.t''] ''ifcomplete'' ''.t''
     = \<lparr>result = Inl (IOError RenameCall ''a.t''),
        issued = [Rename ''a.t'' ''a'', Rename ''a.t'' ''a'', Rename ''a.t.t'' ''a.t''],
        store = [(''a.t'', Malformed ''two''), (''a'', Malformed ''one''),
                 (''stale'', Malformed ''old'')]\<rparr>
   \<and> getMissingFilesForRootFiles_in hd rotate1 (twice_staged ''one'')
       [''a.t'', ''a.t'', ''a.t.t''] ''ifcomplete'' ''.t''
     = \<lparr>result = Inr [],
        issued = [Rename ''a.t'' ''a'', Rename ''a.t'' ''a'', Rename ''a.t.t'' ''a.t'',
                  Unlink ''stale''],
        store = [(''a'', Malformed ''two'')]\<rparr>
   \<and> rotate1 [Rename ''a.t'' ''a'', Rename ''a.t'' ''a'', Rename ''a.t.t'' ''a.t'']
     = [Rename ''a.t'' ''a'', Rename ''a.t.t'' ''a.t'', Rename ''a.t'' ''a'']"
  by code_simp

end
